theory Spec2Isabelle
  imports Main "HOL-Library.Char_ord" "HOL-Library.List_Lexorder"
begin


section \<open>Thrown values and promises\<close>

text \<open>
  Everything the TypeScript sources throw or reject a promise with.  \<open>Back\<close> and
  \<open>Cancel\<close> are the two sentinels \<^verbatim>\<open>InputFlowAction.back\<close> and
  \<^verbatim>\<open>InputFlowAction.cancel\<close> of \<^verbatim>\<open>multi-step-quickpick.ts\<close>; \<open>Cancelled\<close>,
  \<open>Timeout\<close> and \<open>DuplicateNonce\<close> are the conditions of the code registry; \<open>Other\<close>
  carries the message of any other \<^verbatim>\<open>Error\<close>.
\<close>

datatype error = Back | Cancel | Cancelled | Timeout | DuplicateNonce | Other string

text \<open>A promise is pending until its first settlement; later settlements are ignored.\<close>

datatype 'a promise = Pending | Resolved 'a | Rejected error

fun resolve :: "'a \<Rightarrow> 'a promise \<Rightarrow> 'a promise" where
  "resolve v Pending = Resolved v"
| "resolve v p = p"

fun reject :: "error \<Rightarrow> 'a promise \<Rightarrow> 'a promise" where
  "reject e Pending = Rejected e"
| "reject e p = p"

section \<open>The multi-step input runner (\<^verbatim>\<open>common/multi-step-quickpick.ts\<close>)\<close>

subsection \<open>Widgets\<close>

text \<open>
  The part of a \<^verbatim>\<open>vscode.QuickInput\<close> the runner touches: the two flags it writes
  before running a step, whether \<^verbatim>\<open>show()\<close> has put it on screen, and whether
  \<^verbatim>\<open>dispose()\<close> was called.  Disposing a widget takes it off the screen.
\<close>

record quick_input =
  enabled :: bool
  busy :: bool
  shown :: bool
  disposed :: bool

definition dispose :: "'a quick_input_scheme \<Rightarrow> 'a quick_input_scheme" where
  "dispose q = q\<lparr>shown := False, disposed := True\<rparr>"

definition "show" :: "'a quick_input_scheme \<Rightarrow> 'a quick_input_scheme" where
  "show q = q\<lparr>shown := True\<rparr>"

subsection \<open>Steps\<close>

text \<open>
  An \<^verbatim>\<open>InputStep\<close> is a function object; the runner compares and stores references to
  it, so a step is modelled by its identity.  What \<^verbatim>\<open>await step(this)\<close> does is given
  by a behaviour: from the state of the world and the runner's current widget it yields
  either the next step (or \<^verbatim>\<open>undefined\<close>) or a thrown value, the new world and the
  widget that is current afterwards (a step changes it through \<^verbatim>\<open>showQuickPick\<close> and
  \<^verbatim>\<open>showInputBox\<close>; the stack of steps is private to the runner).
\<close>

type_synonym InputStep = nat

datatype outcome = Returns "InputStep option" | Throws error

type_synonym ('w, 'a) behaviour =
  "InputStep \<Rightarrow> 'w \<Rightarrow> 'a quick_input_scheme option
     \<Rightarrow> outcome \<times> 'w \<times> 'a quick_input_scheme option"

record 'a MultiStepInput =
  steps :: "InputStep list"
  current :: "'a quick_input_scheme option"

subsection \<open>\<^verbatim>\<open>MultiStepInput.step\<close> and \<^verbatim>\<open>MultiStepInput.run\<close>\<close>

text \<open>
  \<^verbatim>\<open>this.steps.push(step); if (this.current) { this.current.enabled = false;
  this.current.busy = true; }\<close>
\<close>

definition step_push :: "InputStep \<Rightarrow> 'a MultiStepInput \<Rightarrow> 'a MultiStepInput" where
  "step_push f m =
     m\<lparr>steps := steps m @ [f],
       current := map_option (\<lambda>q. q\<lparr>enabled := False, busy := True\<rparr>) (current m)\<rparr>"

text \<open>
  The \<^verbatim>\<open>try { step = await step(this) } catch (err) { switch (err) ... }\<close> of the loop
  body, applied to what the step did: \<open>Inr\<close> is the new value of the loop variable
  \<^verbatim>\<open>step\<close>, \<open>Inl\<close> a value thrown out of the loop.
\<close>

fun step_catch :: "outcome \<Rightarrow> 'a MultiStepInput
    \<Rightarrow> (error + InputStep option) \<times> 'a MultiStepInput" where
  "step_catch (Returns nxt) m = (Inr nxt, m)"
| "step_catch (Throws Back) m =
     (let m1 = m\<lparr>steps := butlast (steps m)\<rparr>
      in if length (steps m1) = 0 then (Inl Back, m1)
         else (Inr (Some (last (steps m1))), m1\<lparr>steps := butlast (steps m1)\<rparr>))"
| "step_catch (Throws Cancel) m = (Inr None, m)"
| "step_catch (Throws e) m = (Inl e, m)"

text \<open>
  The \<^verbatim>\<open>while (step)\<close> loop.  A flow may go back and forth for ever, so the loop
  takes fuel: one unit per invocation of a step, \<open>None\<close> when it runs out.
\<close>

fun step_while :: "nat \<Rightarrow> ('w, 'a) behaviour \<Rightarrow> 'w \<Rightarrow> 'a MultiStepInput
    \<Rightarrow> InputStep option \<Rightarrow> ((error + unit) \<times> 'w \<times> 'a MultiStepInput) option" where
  "step_while n beh w m None = Some (Inr (), w, m)"
| "step_while 0 beh w m (Some f) = None"
| "step_while (Suc n) beh w m (Some f) =
     (let m1 = step_push f m;
          (out, w2, c2) = beh f w (current m1);
          (r, m3) = step_catch out (m1\<lparr>current := c2\<rparr>)
      in case r of
           Inl e \<Rightarrow> Some (Inl e, w2, m3)
         | Inr nxt \<Rightarrow> step_while n beh w2 m3 nxt)"

text \<open>\<^verbatim>\<open>finally { if (this.current) { this.current.dispose(); } }\<close>\<close>

definition step_finally :: "'a MultiStepInput \<Rightarrow> 'a MultiStepInput" where
  "step_finally m = m\<lparr>current := map_option dispose (current m)\<rparr>"

definition step :: "nat \<Rightarrow> ('w, 'a) behaviour \<Rightarrow> 'w \<Rightarrow> 'a MultiStepInput
    \<Rightarrow> InputStep \<Rightarrow> ((error + unit) \<times> 'w \<times> 'a MultiStepInput) option" where
  "step n beh w m start =
     map_option (\<lambda>(r, w', m'). (r, w', step_finally m')) (step_while n beh w m (Some start))"

text \<open>\<^verbatim>\<open>const input = new MultiStepInput(vs); return input.step(start);\<close>\<close>

definition run :: "nat \<Rightarrow> ('w, 'a) behaviour \<Rightarrow> 'w \<Rightarrow> InputStep
    \<Rightarrow> ((error + unit) \<times> 'w \<times> 'a MultiStepInput) option" where
  "run n beh w start = step n beh w \<lparr>steps = [], current = None\<rparr> start"

text \<open>
  A spy on a behaviour: it appends every step that is invoked to a log kept beside the
  world, which is what \<^verbatim>\<open>sinon.assert.callOrder\<close> reads in the tests.
\<close>

definition spied :: "('w, 'a) behaviour \<Rightarrow> ('w \<times> InputStep list, 'a) behaviour" where
  "spied beh f wl c =
     (let (out, w', c') = beh f (fst wl) c in (out, (w', snd wl @ [f]), c'))"

text \<open>
  The two stubs of the test \<^verbatim>\<open>"goes back a step when one past the first"\<close>: step 1
  always returns step 2; step 2 throws \<^verbatim>\<open>InputFlowAction.back\<close> on its first call and
  returns \<^verbatim>\<open>undefined\<close> on its second.  The world counts the calls of step 2.
\<close>

definition back_once :: "(nat, unit) behaviour" where
  "back_once f calls2 c =
     (if f = 1 then (Returns (Some 2), calls2, c)
      else if calls2 = 0 then (Throws Back, Suc calls2, c)
      else (Returns None, Suc calls2, c))"

text \<open>The stub of the test \<^verbatim>\<open>'stops when "cancel" is thrown'\<close>.\<close>

definition always_cancel :: "(unit, unit) behaviour" where
  "always_cancel f w c = (Throws Cancel, w, c)"

subsection \<open>\<^verbatim>\<open>MultiStepInput.showInputBox\<close> and \<^verbatim>\<open>configureNavigation\<close>\<close>

text \<open>
  A button of a quick input: \<^verbatim>\<open>vs.QuickInputButtons.Back\<close> or any other one.
\<close>

datatype button = BackButton | Button string

text \<open>
  A \<^verbatim>\<open>vscode.InputBox\<close>: a quick input with the properties \<^verbatim>\<open>showInputBox\<close>
  writes.  The field \<open>box_value\<close> is the property \<^verbatim>\<open>value\<close>, \<open>step_no\<close> is \<^verbatim>\<open>step\<close>.
\<close>

record input_box = quick_input +
  title :: string
  step_no :: "nat option"
  totalSteps :: "nat option"
  box_value :: string
  prompt :: string
  placeholder :: "string option"
  buttons :: "button list"
  validationMessage :: "string option"

text \<open>What \<^verbatim>\<open>vs.window.createInputBox()\<close> hands out: an empty, enabled, hidden box.\<close>

definition createInputBox :: input_box where
  "createInputBox =
     \<lparr>enabled = True, busy = False, shown = False, disposed = False,
      title = [], step_no = None, totalSteps = None, box_value = [], prompt = [],
      placeholder = None, buttons = [], validationMessage = None\<rparr>"

text \<open>
  \<^verbatim>\<open>InputBoxOptions\<close> (with the fields of \<^verbatim>\<open>QuickInputOptions\<close>).  \<open>validate\<close> returns
  \<open>None\<close> for \<^verbatim>\<open>undefined\<close>.
\<close>

record InputBoxOptions =
  opt_title :: string
  opt_step :: "nat option"
  opt_totalSteps :: "nat option"
  opt_buttons :: "button list option"
  opt_value :: string
  opt_prompt :: string
  validate :: "string \<Rightarrow> string option"
  opt_placeholder :: "string option"

text \<open>
  JavaScript's \<^verbatim>\<open>!m\<close> for \<^verbatim>\<open>m: string | undefined\<close>: true for \<^verbatim>\<open>undefined\<close> and for
  the empty string.
\<close>

fun falsy :: "string option \<Rightarrow> bool" where
  "falsy None = True"
| "falsy (Some m) = (m = [])"

text \<open>
  A call of \<^verbatim>\<open>showInputBox\<close> that is waiting for the user: the box it created, the
  promise it awaits, and whether its listeners (\<^verbatim>\<open>disposables\<close>) are still registered.
\<close>

record input_prompt =
  input :: input_box
  settled :: "string promise"
  listening :: bool

text \<open>
  The executor of the promise, up to the registration of the listeners: create the box
  and copy the options (\<^verbatim>\<open>opts.value || ""\<close> is \<^verbatim>\<open>opts.value\<close> for a string;
  \<^verbatim>\<open>buttons\<close> is written only when given).
\<close>

definition showInputBox_create :: "InputBoxOptions \<Rightarrow> input_box" where
  "showInputBox_create opts =
     (let i = createInputBox
          \<lparr>title := opt_title opts, step_no := opt_step opts,
           totalSteps := opt_totalSteps opts, box_value := opt_value opts,
           prompt := opt_prompt opts, placeholder := opt_placeholder opts\<rparr>
      in case opt_buttons opts of None \<Rightarrow> i | Some bs \<Rightarrow> i\<lparr>buttons := bs\<rparr>)"

text \<open>
  \<^verbatim>\<open>this.current?.dispose(); this.current = input; this.current.show();\<close>  The box is
  now the runner's current widget; the prompt keeps the one copy of it.
\<close>

definition showInputBox :: "InputBoxOptions \<Rightarrow> input_prompt" where
  "showInputBox opts =
     \<lparr>input = show (showInputBox_create opts), settled = Pending, listening = True\<rparr>"

text \<open>The listener registered with \<^verbatim>\<open>input.onDidAccept\<close>.\<close>

definition onDidAccept :: "InputBoxOptions \<Rightarrow> input_prompt \<Rightarrow> input_prompt" where
  "onDidAccept opts p =
     (let v = box_value (input p);
          p1 = p\<lparr>input := (input p)\<lparr>enabled := False, busy := True\<rparr>\<rparr>;
          validationMessage = validate opts v;
          p2 = (if falsy validationMessage then p1\<lparr>settled := resolve v (settled p1)\<rparr>
                else p1)
      in p2\<lparr>input := (input p2)\<lparr>enabled := True, busy := False\<rparr>\<rparr>)"

text \<open>The listener registered with \<^verbatim>\<open>input.onDidChangeValue\<close>.\<close>

definition onDidChangeValue :: "InputBoxOptions \<Rightarrow> string \<Rightarrow> input_prompt \<Rightarrow> input_prompt" where
  "onDidChangeValue opts t p =
     p\<lparr>input := (input p)\<lparr>validationMessage := validate opts t\<rparr>\<rparr>"

text \<open>The two listeners of \<^verbatim>\<open>configureNavigation\<close>.\<close>

definition onDidTriggerButton :: "button \<Rightarrow> input_prompt \<Rightarrow> input_prompt" where
  "onDidTriggerButton e p =
     (if e = BackButton then p\<lparr>settled := reject Back (settled p)\<rparr> else p)"

definition onDidHide :: "input_prompt \<Rightarrow> input_prompt" where
  "onDidHide p = p\<lparr>settled := reject Cancel (settled p)\<rparr>"

text \<open>
  What the user and the window do to a box that is on screen.  Typing replaces the
  box's value and then fires \<^verbatim>\<open>onDidChangeValue\<close> with it, as the tests do by hand.
\<close>

datatype ui_event = Type string | Accept | Hide | Press button

fun listener :: "InputBoxOptions \<Rightarrow> ui_event \<Rightarrow> input_prompt \<Rightarrow> input_prompt" where
  "listener opts (Type t) p = onDidChangeValue opts t (p\<lparr>input := (input p)\<lparr>box_value := t\<rparr>\<rparr>)"
| "listener opts Accept p = onDidAccept opts p"
| "listener opts Hide p = onDidHide p"
| "listener opts (Press b) p = onDidTriggerButton b p"

text \<open>
  Delivery of an event runs the listener if it is still registered.  Settling the
  promise does not unregister anything: events delivered after it, in the same turn of
  the event loop, still reach the listeners (and find the promise settled).
\<close>

definition deliver :: "InputBoxOptions \<Rightarrow> ui_event \<Rightarrow> input_prompt \<Rightarrow> input_prompt" where
  "deliver opts ev p = (if listening p then listener opts ev p else p)"

text \<open>
  The \<^verbatim>\<open>finally\<close> of \<^verbatim>\<open>showInputBox\<close>, which runs when the function resumes from its
  \<^verbatim>\<open>await\<close>, in a microtask after the promise has settled: it disposes all listeners.
\<close>

definition showInputBox_finally :: "input_prompt \<Rightarrow> input_prompt" where
  "showInputBox_finally p = (if settled p = Pending then p else p\<lparr>listening := False\<rparr>)"

text \<open>
  The options of the test \<^verbatim>\<open>"validates the input as it changes"\<close>: only the value
  \<^verbatim>\<open>foo\<close> passes validation.
\<close>

definition need_foo :: InputBoxOptions where
  "need_foo =
     \<lparr>opt_title = ''Got a value?'', opt_step = Some 1, opt_totalSteps = Some 1,
      opt_buttons = None, opt_value = [], opt_prompt = ''Enter a value'',
      validate = (\<lambda>t. if t = ''foo'' then None else Some ''Nope, need foo''),
      opt_placeholder = None\<rparr>"

section \<open>Sessions and the Google authentication provider (\<^verbatim>\<open>auth/provider.ts\<close>)\<close>

text \<open>\<^verbatim>\<open>vscode.AuthenticationSession\<close> and its account information.\<close>

record AccountInformation =
  account_id :: string
  account_label :: string

record AuthenticationSession =
  session_id :: string
  accessToken :: string
  account :: AccountInformation
  scopes :: "string list"

definition REQUIRED_SCOPES :: "string list" where
  "REQUIRED_SCOPES = [''profile'', ''email'']"

text \<open>
  A JavaScript \<^verbatim>\<open>Set\<close> built from an array keeps the first occurrence of every element,
  in insertion order.
\<close>

definition Set_add :: "'a \<Rightarrow> 'a list \<Rightarrow> 'a list" where
  "Set_add x s = (if x \<in> set s then s else s @ [x])"

definition new_Set :: "'a list \<Rightarrow> 'a list" where
  "new_Set xs = foldl (\<lambda>s x. Set_add x s) [] xs"

text \<open>\<^verbatim>\<open>Array.prototype.join\<close> on an array of strings.\<close>

fun join :: "string \<Rightarrow> string list \<Rightarrow> string" where
  "join sep [] = []"
| "join sep [x] = x"
| "join sep (x # y # ys) = x @ sep @ join sep (y # ys)"

text \<open>
  An authorization URL, kept as its endpoint and its decoded query parameters (what the
  tests read back with \<^verbatim>\<open>URLSearchParams\<close>).
\<close>

record auth_url =
  endpoint :: string
  params :: "(string \<times> string) list"

record OAuth2Client =
  clientId :: string
  client_redirectUri :: string

definition or_default :: "string \<Rightarrow> string \<Rightarrow> (string \<times> string) list \<Rightarrow> (string \<times> string) list" where
  "or_default k v opts = (case map_of opts k of None \<Rightarrow> opts @ [(k, v)] | Some _ \<Rightarrow> opts)"

text \<open>
  \<^verbatim>\<open>OAuth2Client.generateAuthUrl\<close> of google-auth-library, an external capability: the
  options become the query of Google's authorization endpoint, with the client's id and
  redirect URI filled in where the caller gives none.
\<close>

definition generateAuthUrl :: "OAuth2Client \<Rightarrow> (string \<times> string) list \<Rightarrow> auth_url" where
  "generateAuthUrl c opts =
     \<lparr>endpoint = ''https://accounts.google.com/o/oauth2/v2/auth'',
      params = or_default ''redirect_uri'' (client_redirectUri c)
                 (or_default ''client_id'' (clientId c)
                   (or_default ''response_type'' ''code'' opts))\<rparr>"

text \<open>
  What the provider's collaborators answer during one \<^verbatim>\<open>createSession\<close>: the two
  \<^verbatim>\<open>uuid()\<close> values, whether \<^verbatim>\<open>codeProvider.waitForCode\<close> throws and how its promise
  settles, and the results of the awaited calls (\<open>Inl\<close> is a rejection).
\<close>

record provider_env =
  uriScheme :: string
  publisher :: string
  package_name :: string
  oAuth2Client :: OAuth2Client
  uuid_nonce :: string
  uuid_session :: string
  waitForCode_throws :: "error option"
  promisedCode :: "error + string"
  asExternalUri :: "string \<Rightarrow> error + string"
  generateCodeVerifierAsync :: "error + string \<times> string"
  openExternal :: "auth_url \<Rightarrow> error + bool"
  getToken :: "string \<Rightarrow> string \<Rightarrow> error + nat option \<times> string option"
  getUserInfo :: "string \<Rightarrow> error + string \<times> string"
  storeSession_rejects :: "error option"

text \<open>What a \<^verbatim>\<open>createSession\<close> does to the outside, in order.\<close>

record provider_effects =
  opened :: "auth_url list"
  information_messages :: "string list"
  error_messages :: "error list"
  stored :: "AuthenticationSession list"
  fired_added :: "AuthenticationSession list"

type_synonym 'a io = "provider_effects \<Rightarrow> (error + 'a) \<times> provider_effects"

definition andThen :: "'a io \<Rightarrow> ('a \<Rightarrow> 'b io) \<Rightarrow> 'b io" where
  "andThen m k fx = (case m fx of (Inl e, fx') \<Rightarrow> (Inl e, fx') | (Inr a, fx') \<Rightarrow> k a fx')"

definition await :: "error + 'a \<Rightarrow> 'a io" where
  "await r fx = (r, fx)"

text \<open>\<^verbatim>\<open>GoogleAuthProvider.getCallbackUri\<close>\<close>

definition getCallbackUri :: "provider_env \<Rightarrow> string \<Rightarrow> string io" where
  "getCallbackUri env nonce =
     await (asExternalUri env
       (uriScheme env @ ''://'' @ publisher env @ ''.'' @ package_name env @ ''?nonce='' @ nonce))"

text \<open>\<^verbatim>\<open>GoogleAuthProvider.login\<close>; \<^verbatim>\<open>withProgress\<close> runs the task it is given.\<close>

definition login :: "provider_env \<Rightarrow> string \<Rightarrow> string io" where
  "login env scopes_arg =
     (let nonce = uuid_nonce env in
      andThen (await (case waitForCode_throws env of Some e \<Rightarrow> Inl e | None \<Rightarrow> Inr ())) (\<lambda>_.
      andThen (getCallbackUri env nonce) (\<lambda>callbackUri.
      andThen (await (generateCodeVerifierAsync env)) (\<lambda>(codeVerifier, codeChallenge).
      let authorizeUrl = generateAuthUrl (oAuth2Client env)
            [(''response_type'', ''code''), (''scope'', scopes_arg), (''state'', callbackUri),
             (''prompt'', ''login''), (''code_challenge_method'', ''S256''),
             (''code_challenge'', codeChallenge)] in
      andThen (\<lambda>fx. (openExternal env authorizeUrl, fx\<lparr>opened := opened fx @ [authorizeUrl]\<rparr>)) (\<lambda>_.
      andThen (await (promisedCode env)) (\<lambda>code.
      andThen (await (getToken env code codeVerifier)) (\<lambda>(status, access_token).
      andThen (await (case access_token of
                        Some t \<Rightarrow> if status = Some 200 \<and> t \<noteq> [] then Inr t
                                  else Inl (Other ''No access token returned'')
                      | None \<Rightarrow> Inl (Other ''No access token returned''))) (\<lambda>token.
      andThen (\<lambda>fx. (Inr (), fx\<lparr>information_messages :=
                         information_messages fx @ [''Signed in to Google!'']\<rparr>)) (\<lambda>_.
      await (Inr token))))))))))"

text \<open>\<^verbatim>\<open>GoogleAuthProvider.createSession\<close>\<close>

definition createSession :: "provider_env \<Rightarrow> string list \<Rightarrow> AuthenticationSession io" where
  "createSession env scopes_arg fx0 =
     (let attempt =
        (let scopeSet = new_Set (scopes_arg @ REQUIRED_SCOPES);
             sortedScopes = sort scopeSet in
         andThen (login env (join '' '' sortedScopes)) (\<lambda>token.
         andThen (await (if token = [] then Inl (Other ''Google login failed'') else Inr ())) (\<lambda>_.
         andThen (await (getUserInfo env token)) (\<lambda>(user_name, user_email).
         let session = \<lparr>session_id = uuid_session env, accessToken = token,
                         account = \<lparr>account_id = user_email, account_label = user_name\<rparr>,
                         scopes = sortedScopes\<rparr> in
         andThen (\<lambda>fx. (case storeSession_rejects env of Some e \<Rightarrow> Inl e | None \<Rightarrow> Inr (),
                         fx\<lparr>stored := stored fx @ [session]\<rparr>)) (\<lambda>_.
         andThen (\<lambda>fx. (Inr (), fx\<lparr>fired_added := fired_added fx @ [session]\<rparr>)) (\<lambda>_.
         await (Inr session)))))))
      in case attempt fx0 of
           (Inl err, fx) \<Rightarrow> (Inl err, fx\<lparr>error_messages := error_messages fx @ [err]\<rparr>)
         | (Inr session, fx) \<Rightarrow> (Inr session, fx))"

definition no_effects :: provider_effects where
  "no_effects = \<lparr>opened = [], information_messages = [], error_messages = [],
                  stored = [], fired_added = []\<rparr>"

text \<open>The collaborators as the test \<^verbatim>\<open>"succeeds"\<close> of the provider stubs them.\<close>

definition succeeding_env :: provider_env where
  "succeeding_env =
     \<lparr>uriScheme = ''vscode'', publisher = ''google'', package_name = ''colab'',
      oAuth2Client = \<lparr>clientId = ''testClientId'',
                      client_redirectUri = ''https://localhost:8888/vscode/redirect''\<rparr>,
      uuid_nonce = ''n1'', uuid_session = ''1'',
      waitForCode_throws = None, promisedCode = Inr ''42'',
      asExternalUri = (\<lambda>u. Inr (u @ ''&windowId=1'')),
      generateCodeVerifierAsync = Inr (''verifier'', ''challenge''),
      openExternal = (\<lambda>u. Inr True),
      getToken = (\<lambda>code verifier. if code = ''42'' then Inr (Some 200, Some ''123'')
                                    else Inl (Other ''invalid_grant'')),
      getUserInfo = (\<lambda>token. Inr (''Foo Bar'', ''foo@example.com'')),
      storeSession_rejects = None\<rparr>"

section \<open>The code registry (\<^verbatim>\<open>CodeManager\<close>)\<close>

text \<open>
  Modelled from the spec: the class \<^verbatim>\<open>CodeManager\<close> of \<^verbatim>\<open>auth/code-manager.ts\<close>, which
  \<^verbatim>\<open>proxied.ts\<close> instantiates, is not among the sources.  The spec (4.1, the registry
  of pending code requests) gives its contract: \<^verbatim>\<open>waitForCode\<close> registers a pending
  request under the nonce, failing with \<open>DuplicateNonce\<close> when one is pending;
  \<^verbatim>\<open>resolveCode\<close> resolves and removes the entry, and is a no-op when there is none; a
  fired cancellation signal rejects with \<open>Cancelled\<close> and removes; after the fixed
  ceiling of 60 seconds the request is rejected with \<open>Timeout\<close> and removed.

  A pending request holds the promise it settles (by index into the promises handed
  out so far), the time at which its timer fires, in milliseconds, and the
  cancellation token it listens to.
\<close>

record PendingRequest =
  promise_id :: nat
  timeoutHandle :: nat
  cancellation :: nat

record CodeManager =
  pending :: "(string \<times> PendingRequest) list"
  promises :: "string promise list"

definition TIMEOUT_MS :: nat where
  "TIMEOUT_MS = 60000"

definition new_CodeManager :: CodeManager where
  "new_CodeManager = \<lparr>pending = [], promises = []\<rparr>"

definition waitForCode :: "string \<Rightarrow> nat \<Rightarrow> nat \<Rightarrow> CodeManager \<Rightarrow> error + nat \<times> CodeManager" where
  "waitForCode n token now cm =
     (case map_of (pending cm) n of
        Some r \<Rightarrow> Inl DuplicateNonce
      | None \<Rightarrow>
          Inr (length (promises cm),
               cm\<lparr>pending := pending cm @
                      [(n, \<lparr>promise_id = length (promises cm),
                            timeoutHandle = now + TIMEOUT_MS, cancellation = token\<rparr>)],
                  promises := promises cm @ [Pending]\<rparr>))"

definition resolveCode :: "string \<Rightarrow> string \<Rightarrow> CodeManager \<Rightarrow> CodeManager" where
  "resolveCode n c cm =
     (case map_of (pending cm) n of
        None \<Rightarrow> cm
      | Some r \<Rightarrow>
          cm\<lparr>pending := filter (\<lambda>(k, r'). k \<noteq> n) (pending cm),
             promises := (promises cm)[promise_id r := resolve c (promises cm ! promise_id r)]\<rparr>)"

text \<open>
  Reject every pending request that satisfies \<open>P\<close> and remove it from the table.
\<close>

fun reject_each :: "(PendingRequest \<Rightarrow> bool) \<Rightarrow> error \<Rightarrow> (string \<times> PendingRequest) list
    \<Rightarrow> string promise list \<Rightarrow> string promise list" where
  "reject_each P e [] ps = ps"
| "reject_each P e ((n, r) # rest) ps =
     reject_each P e rest
       (if P r then ps[promise_id r := reject e (ps ! promise_id r)] else ps)"

definition reject_where :: "(PendingRequest \<Rightarrow> bool) \<Rightarrow> error \<Rightarrow> CodeManager \<Rightarrow> CodeManager" where
  "reject_where P e cm =
     cm\<lparr>pending := filter (\<lambda>(k, r). \<not> P r) (pending cm),
        promises := reject_each P e (pending cm) (promises cm)\<rparr>"

text \<open>The listener on a cancellation token, and the timers that are due at a time.\<close>

definition onCancellationRequested :: "nat \<Rightarrow> CodeManager \<Rightarrow> CodeManager" where
  "onCancellationRequested token cm = reject_where (\<lambda>r. cancellation r = token) Cancelled cm"

definition onTimeout :: "nat \<Rightarrow> CodeManager \<Rightarrow> CodeManager" where
  "onTimeout now cm = reject_where (\<lambda>r. timeoutHandle r \<le> now) Timeout cm"

text \<open>The promise with a given index (pending while not handed out).\<close>

definition promise_at :: "CodeManager \<Rightarrow> nat \<Rightarrow> string promise" where
  "promise_at cm p = (if p < length (promises cm) then promises cm ! p else Pending)"

text \<open>
  The registry is consistent when no nonce and no promise is in the table twice, and
  every request in the table has a promise that was handed out and is still pending.
\<close>

definition consistent :: "CodeManager \<Rightarrow> bool" where
  "consistent cm =
     (distinct (map fst (pending cm)) \<and> distinct (map (promise_id \<circ> snd) (pending cm))
      \<and> list_all (\<lambda>(n, r). promise_id r < length (promises cm)
                            \<and> promises cm ! promise_id r = Pending) (pending cm))"

text \<open>
  The calls the registry receives, for stating what happens to a request while other
  things go on: registrations, deliveries, fired cancellation tokens, and the clock
  reaching a time (which runs the timers that are due).
\<close>

datatype registry_call = Wait string nat nat | Deliver string string | Fire nat | Clock nat

fun call :: "registry_call \<Rightarrow> CodeManager \<Rightarrow> CodeManager" where
  "call (Wait n token now) cm =
     (case waitForCode n token now cm of Inl e \<Rightarrow> cm | Inr (p, cm') \<Rightarrow> cm')"
| "call (Deliver n c) cm = resolveCode n c cm"
| "call (Fire token) cm = onCancellationRequested token cm"
| "call (Clock now) cm = onTimeout now cm"

text \<open>
  A call that is neither a delivery for the nonce, nor the cancellation of its token,
  nor the clock reaching the deadline.
\<close>

fun unrelated :: "string \<Rightarrow> nat \<Rightarrow> nat \<Rightarrow> registry_call \<Rightarrow> bool" where
  "unrelated n token deadline (Wait n' token' now) = True"
| "unrelated n token deadline (Deliver n' c) = (n' \<noteq> n)"
| "unrelated n token deadline (Fire token') = (token' \<noteq> token)"
| "unrelated n token deadline (Clock now) = (now < deadline)"

section \<open>The proxied redirect flow (\<^verbatim>\<open>auth/flows/proxied.ts\<close>)\<close>

record OAuth2TriggerOptions =
  nonce :: string
  trigger_scopes :: "string list"
  pkceChallenge :: string

record FlowResult =
  code :: string
  redirectUri :: string

text \<open>
  A flow object.  \<^verbatim>\<open>CONFIG.ColabApiDomain\<close> (\<^verbatim>\<open>colab-config\<close>) and
  \<^verbatim>\<open>DEFAULT_AUTH_URL_OPTS\<close> (\<^verbatim>\<open>flows.ts\<close>) are constants of files that are not among
  the sources, so they are parameters here.
\<close>

record ProxiedRedirectFlow =
  extensionUri :: string
  flow_client :: OAuth2Client
  ColabApiDomain :: string
  DEFAULT_AUTH_URL_OPTS :: "(string \<times> string) list"

definition PROXIED_REDIRECT_URI :: "ProxiedRedirectFlow \<Rightarrow> string" where
  "PROXIED_REDIRECT_URI fl = ColabApiDomain fl @ ''/vscode/redirect''"

text \<open>
  An object literal \<^verbatim>\<open>{...opts, k: v}\<close>: the property keeps its place when \<^verbatim>\<open>opts\<close>
  has it, and is added at the end otherwise.
\<close>

fun assign :: "string \<Rightarrow> string \<Rightarrow> (string \<times> string) list \<Rightarrow> (string \<times> string) list" where
  "assign k v [] = [(k, v)]"
| "assign k v ((k', v') # opts) =
     (if k' = k then (k, v) # opts else (k', v') # assign k v opts)"

text \<open>
  The options of the input box in \<^verbatim>\<open>promptForAuthorizationCode\<close>.  (The literal also
  gives \<^verbatim>\<open>ignoreFocusOut\<close> and \<^verbatim>\<open>password\<close>, which \<^verbatim>\<open>showInputBox\<close> never reads.)
\<close>

definition code_prompt :: InputBoxOptions where
  "code_prompt =
     \<lparr>opt_title = ''Sign in to Google'', opt_step = None, opt_totalSteps = None,
      opt_buttons = None, opt_value = [], opt_prompt = ''Enter your authorization code'',
      validate = (\<lambda>v. if length v = 0 then Some ''Authorization code cannot be empty''
                        else None),
      opt_placeholder = None\<rparr>"

text \<open>
  The wizard that \<^verbatim>\<open>promptForAuthorizationCode\<close> starts and does not wait for: the
  runner, whose current widget is the one input box, the promise of
  \<^verbatim>\<open>showInputBox\<close> its step awaits, whether the listeners of the box are registered,
  and the promise of \<^verbatim>\<open>MultiStepInput.run\<close>.
\<close>

record wizard =
  runner :: "unit input_box_ext MultiStepInput"
  pasted :: "string promise"
  registered :: bool
  run_promise :: "unit promise"

text \<open>
  Where \<^verbatim>\<open>trigger\<close> is suspended, and the state of one invocation: the flow's registry,
  the clock, the cancellation token source \<^verbatim>\<open>trigger\<close> creates (the identity of its
  token, whether it was cancelled and whether it was disposed), the promise
  \<^verbatim>\<open>waitForCode\<close> returned, the URLs opened, the wizard, and the promise \<^verbatim>\<open>trigger\<close>
  returned to its caller.
\<close>

datatype phase = AwaitAsExternalUri | AwaitOpenExternal | AwaitCode | Finished

record trigger_state =
  codeManager :: CodeManager
  clock :: nat
  token :: nat
  cancelled :: bool
  token_disposed :: bool
  code_promise :: "nat option"
  phase :: phase
  opened_urls :: "auth_url list"
  wizard :: "wizard option"
  result :: "FlowResult promise"

text \<open>
  What happens to an invocation from outside: the two awaited calls of the environment
  settle, the caller's cancellation token fires, time passes (in milliseconds), or the
  user acts on the input box.  The registry of a flow is private to it, and in
  \<^verbatim>\<open>proxied.ts\<close> only the step of the input box calls \<^verbatim>\<open>resolveCode\<close>, so there is no
  other delivery of a code.

  JavaScript runs these events in turns: the events of one turn are handled one after
  the other, synchronously, and only then do the continuations run that wait on the
  promises the turn has settled (as microtasks).  The tests put several events in one
  turn, for instance the new value of the box and its acceptance.
\<close>

datatype event =
    AsExternalUri "error + string"
  | OpenExternal "error + bool"
  | CancellationRequested
  | Elapse nat
  | Ui ui_event

text \<open>
  \<^verbatim>\<open>cancelTokenSource.cancel()\<close>: the first call on a source that is not disposed
  notifies the listener the registry put on the token; a disposed source has dropped
  its listeners.
\<close>

definition cancelTokenSource_cancel :: "trigger_state \<Rightarrow> trigger_state" where
  "cancelTokenSource_cancel st =
     (if cancelled st then st
      else if token_disposed st then st\<lparr>cancelled := True\<rparr>
      else st\<lparr>cancelled := True,
              codeManager := onCancellationRequested (token st) (codeManager st)\<rparr>)"

text \<open>
  Leaving the \<^verbatim>\<open>try\<close> block of \<^verbatim>\<open>trigger\<close>, by \<^verbatim>\<open>return\<close> or by an exception: the
  \<^verbatim>\<open>finally\<close> disposes the token source, then the promise settles.
\<close>

definition trigger_finally :: "FlowResult promise \<Rightarrow> trigger_state \<Rightarrow> trigger_state" where
  "trigger_finally r st = st\<lparr>token_disposed := True, phase := Finished, result := r\<rparr>"

text \<open>
  \<^verbatim>\<open>trigger\<close>, up to its first \<^verbatim>\<open>await\<close>: create the token source, register with the
  registry (which may throw), ask for the external URI.  \<open>tok\<close> is the identity of the
  new token, \<open>now\<close> the time of the call and \<open>cm\<close> the flow's registry at that time.
\<close>

definition trigger :: "ProxiedRedirectFlow \<Rightarrow> OAuth2TriggerOptions \<Rightarrow> nat \<Rightarrow> nat
    \<Rightarrow> CodeManager \<Rightarrow> trigger_state" where
  "trigger fl options tok now cm =
     (let st = \<lparr>codeManager = cm, clock = now, token = tok, cancelled = False,
                token_disposed = False, code_promise = None, phase = AwaitAsExternalUri,
                opened_urls = [], wizard = None, result = Pending\<rparr>
      in case waitForCode (nonce options) tok now cm of
           Inl e \<Rightarrow> trigger_finally (Rejected e) st
         | Inr (p, cm') \<Rightarrow> st\<lparr>codeManager := cm', code_promise := Some p\<rparr>)"

text \<open>The authorization URL \<^verbatim>\<open>trigger\<close> builds once the external URI is known.\<close>

definition authUrl :: "ProxiedRedirectFlow \<Rightarrow> OAuth2TriggerOptions \<Rightarrow> string \<Rightarrow> auth_url" where
  "authUrl fl options externalProxiedRedirectUri =
     generateAuthUrl (flow_client fl)
       (assign ''code_challenge'' (pkceChallenge options)
         (assign ''scope'' (join '' '' (trigger_scopes options))
           (assign ''state'' externalProxiedRedirectUri
             (assign ''redirect_uri'' (PROXIED_REDIRECT_URI fl) (DEFAULT_AUTH_URL_OPTS fl)))))"

text \<open>
  A step of the wizard is invoked: the runner pushes it, and the step calls
  \<^verbatim>\<open>showInputBox\<close>, which disposes the widget shown before, shows a new box and waits.
\<close>

definition invoke_step :: "InputStep \<Rightarrow> unit input_box_ext MultiStepInput \<Rightarrow> wizard" where
  "invoke_step f m =
     (let p = showInputBox code_prompt
      in \<lparr>runner = (step_push f m)\<lparr>current := Some (input p)\<rparr>, pasted = settled p,
          registered = listening p, run_promise = Pending\<rparr>)"

text \<open>
  \<^verbatim>\<open>promptForAuthorizationCode\<close>: \<^verbatim>\<open>void MultiStepInput.run(this.vs, async (input) => ...)\<close>.
\<close>

definition promptForAuthorizationCode :: "trigger_state \<Rightarrow> trigger_state" where
  "promptForAuthorizationCode st =
     st\<lparr>wizard := Some (invoke_step 0 \<lparr>steps = [], current = None\<rparr>)\<rparr>"

text \<open>
  An event of the input box reaches the box of the wizard, synchronously: the listeners
  run and may settle the promise of \<^verbatim>\<open>showInputBox\<close>; the step that awaits it does
  not run yet.
\<close>

definition ui :: "ui_event \<Rightarrow> trigger_state \<Rightarrow> trigger_state" where
  "ui ev st =
     (case wizard st of
        None \<Rightarrow> st
      | Some wz \<Rightarrow>
         (case current (runner wz) of
            None \<Rightarrow> st
          | Some box \<Rightarrow>
             let p = deliver code_prompt ev
                       \<lparr>input = box, settled = pasted wz, listening = registered wz\<rparr>
             in st\<lparr>wizard := Some (wz\<lparr>runner := (runner wz)\<lparr>current := Some (input p)\<rparr>,
                                       pasted := settled p, registered := listening p\<rparr>)\<rparr>))"


text \<open>What an event does synchronously, in the turn in which it happens.\<close>

fun handle :: "ProxiedRedirectFlow \<Rightarrow> OAuth2TriggerOptions \<Rightarrow> event \<Rightarrow> trigger_state
    \<Rightarrow> trigger_state" where
  "handle fl options (AsExternalUri r) st =
     (if phase st = AwaitAsExternalUri then
        case r of
          Inl e \<Rightarrow> trigger_finally (Rejected e) st
        | Inr externalProxiedRedirectUri \<Rightarrow>
            st\<lparr>opened_urls := opened_urls st @ [authUrl fl options externalProxiedRedirectUri],
               phase := AwaitOpenExternal\<rparr>
      else st)"
| "handle fl options (OpenExternal r) st =
     (if phase st = AwaitOpenExternal then
        case r of
          Inl e \<Rightarrow> trigger_finally (Rejected e) st
        | Inr ok \<Rightarrow> (promptForAuthorizationCode st)\<lparr>phase := AwaitCode\<rparr>
      else st)"
| "handle fl options CancellationRequested st = cancelTokenSource_cancel st"
| "handle fl options (Elapse ms) st =
     st\<lparr>clock := clock st + ms, codeManager := onTimeout (clock st + ms) (codeManager st)\<rparr>"
| "handle fl options (Ui ev) st = ui ev st"

text \<open>
  The rest of the wizard's step once the promise of \<^verbatim>\<open>showInputBox\<close> has settled: a
  pasted code goes to \<^verbatim>\<open>resolveCode\<close>, \<^verbatim>\<open>InputFlowAction.cancel\<close> cancels the token
  source, anything else is thrown again.
\<close>

fun step_body :: "string \<Rightarrow> string promise \<Rightarrow> trigger_state \<Rightarrow> outcome \<times> trigger_state" where
  "step_body n (Resolved pastedCode) st =
     (Returns None, st\<lparr>codeManager := resolveCode n pastedCode (codeManager st)\<rparr>)"
| "step_body n (Rejected e) st =
     (if e = Cancel then (Returns None, cancelTokenSource_cancel st) else (Throws e, st))"
| "step_body n Pending st = (Returns None, st)"

text \<open>
  The rest of \<^verbatim>\<open>MultiStepInput.step\<close> after its \<^verbatim>\<open>await step(this)\<close>: the \<^verbatim>\<open>catch\<close>,
  then either the next turn of the loop, which invokes a step again, or the
  \<^verbatim>\<open>finally\<close> and the settlement of the promise of \<^verbatim>\<open>run\<close>.
\<close>

definition step_resume :: "outcome \<Rightarrow> wizard \<Rightarrow> wizard" where
  "step_resume out wz =
     (case step_catch out (runner wz) of
        (Inl e, m) \<Rightarrow> wz\<lparr>runner := step_finally m, run_promise := Rejected e\<rparr>
      | (Inr None, m) \<Rightarrow> wz\<lparr>runner := step_finally m, run_promise := Resolved ()\<rparr>
      | (Inr (Some f), m) \<Rightarrow> invoke_step f m)"

text \<open>
  The wizard continues, after the turn: when the promise of \<^verbatim>\<open>showInputBox\<close> has
  settled and the function has not resumed yet (its listeners are registered), it
  resumes: its \<^verbatim>\<open>finally\<close> disposes the listeners, then the step and the runner go on.
\<close>

definition wizard_resume :: "string \<Rightarrow> trigger_state \<Rightarrow> trigger_state" where
  "wizard_resume n st =
     (case wizard st of
        None \<Rightarrow> st
      | Some wz \<Rightarrow>
         (case current (runner wz) of
            None \<Rightarrow> st
          | Some box \<Rightarrow>
             if registered wz \<and> pasted wz \<noteq> Pending then
               let p = showInputBox_finally
                         \<lparr>input = box, settled = pasted wz, listening = registered wz\<rparr>;
                   (out, st1) = step_body n (settled p) st
               in st1\<lparr>wizard := Some (step_resume out (wz\<lparr>registered := listening p\<rparr>))\<rparr>
             else st))"

text \<open>
  \<^verbatim>\<open>return { code: await code, redirectUri: PROXIED_REDIRECT_URI }\<close>: when \<^verbatim>\<open>trigger\<close>
  waits for the code and its promise has settled, \<^verbatim>\<open>trigger\<close> finishes.
\<close>

definition await_code :: "ProxiedRedirectFlow \<Rightarrow> trigger_state \<Rightarrow> trigger_state" where
  "await_code fl st =
     (if phase st = AwaitCode then
        case code_promise st of
          None \<Rightarrow> st
        | Some p \<Rightarrow>
           (case promise_at (codeManager st) p of
              Pending \<Rightarrow> st
            | Resolved c \<Rightarrow>
                trigger_finally (Resolved \<lparr>code = c, redirectUri = PROXIED_REDIRECT_URI fl\<rparr>) st
            | Rejected e \<Rightarrow> trigger_finally (Rejected e) st)
      else st)"

text \<open>
  The microtasks at the end of a turn: the wizard continues, which may settle the code
  promise, then \<^verbatim>\<open>trigger\<close> continues.
\<close>

definition microtasks :: "ProxiedRedirectFlow \<Rightarrow> OAuth2TriggerOptions \<Rightarrow> trigger_state
    \<Rightarrow> trigger_state" where
  "microtasks fl options st = await_code fl (wizard_resume (nonce options) st)"

text \<open>A turn: its events, then the microtasks.  An invocation goes through a list of turns.\<close>

definition turn :: "ProxiedRedirectFlow \<Rightarrow> OAuth2TriggerOptions \<Rightarrow> event list \<Rightarrow> trigger_state
    \<Rightarrow> trigger_state" where
  "turn fl options evs st = microtasks fl options (foldl (\<lambda>s ev. handle fl options ev s) st evs)"

definition after :: "ProxiedRedirectFlow \<Rightarrow> OAuth2TriggerOptions \<Rightarrow> event list list
    \<Rightarrow> trigger_state \<Rightarrow> trigger_state" where
  "after fl options turns st = foldl (\<lambda>s evs. turn fl options evs s) st turns"

text \<open>
  The flow and the options of the tests of \<^verbatim>\<open>proxied.ts\<close>, with a stand-in for the
  domain of the configuration.
\<close>

definition test_flow :: ProxiedRedirectFlow where
  "test_flow =
     \<lparr>extensionUri = ''vscode://google.colab'',
      flow_client = \<lparr>clientId = ''testClientId'', client_redirectUri = []\<rparr>,
      ColabApiDomain = ''https://colab.example'',
      DEFAULT_AUTH_URL_OPTS = [(''response_type'', ''code'')]\<rparr>"

definition defaultTriggerOpts :: OAuth2TriggerOptions where
  "defaultTriggerOpts = \<lparr>nonce = ''nonce'', trigger_scopes = [''foo''], pkceChallenge = ''1 + 1 = ?''\<rparr>"

text \<open>
  The three shapes of the wizard: it waits for the user with its box on screen; the
  promise of \<^verbatim>\<open>showInputBox\<close> has settled in the current turn and the step has not
  resumed yet; or it has ended and its box is disposed.
\<close>

definition waiting_wizard :: "wizard \<Rightarrow> bool" where
  "waiting_wizard wz =
     (registered wz \<and> pasted wz = Pending \<and> run_promise wz = Pending
      \<and> steps (runner wz) = [0]
      \<and> (\<exists>box. current (runner wz) = Some box \<and> shown box \<and> \<not> disposed box))"

definition settling_wizard :: "wizard \<Rightarrow> bool" where
  "settling_wizard wz =
     (registered wz \<and> pasted wz \<noteq> Pending \<and> run_promise wz = Pending
      \<and> steps (runner wz) = [0]
      \<and> (\<exists>box. current (runner wz) = Some box \<and> shown box \<and> \<not> disposed box))"

definition ended_wizard :: "wizard \<Rightarrow> bool" where
  "ended_wizard wz =
     (\<not> registered wz \<and> pasted wz \<noteq> Pending \<and> run_promise wz \<noteq> Pending
      \<and> (\<exists>box. current (runner wz) = Some box \<and> \<not> shown box \<and> disposed box))"

text \<open>
  What holds of every state of an invocation: \<^verbatim>\<open>trigger\<close> has finished exactly when
  its promise has settled and exactly when its token source is disposed; the wizard
  exists from the prompt on, in one of its three shapes.
\<close>

definition shape_inv :: "trigger_state \<Rightarrow> bool" where
  "shape_inv st =
     (((phase st = Finished) = (result st \<noteq> Pending))
      \<and> (token_disposed st = (phase st = Finished))
      \<and> (phase st = AwaitAsExternalUri \<or> phase st = AwaitOpenExternal \<longrightarrow> wizard st = None)
      \<and> (phase st = AwaitCode \<longrightarrow> wizard st \<noteq> None)
      \<and> (\<forall>wz. wizard st = Some wz \<longrightarrow>
            waiting_wizard wz \<or> settling_wizard wz \<or> ended_wizard wz))"

text \<open>
  A result carries the fixed redirect URI and the value of the resolved code promise,
  and the code promise is only ever resolved with what the input box was accepted with.
\<close>

definition code_inv :: "ProxiedRedirectFlow \<Rightarrow> trigger_state \<Rightarrow> bool" where
  "code_inv fl st =
     ((\<forall>r. result st = Resolved r \<longrightarrow>
          redirectUri r = PROXIED_REDIRECT_URI fl
          \<and> (\<exists>p. code_promise st = Some p \<and> promise_at (codeManager st) p = Resolved (code r)))
      \<and> (\<forall>p c. code_promise st = Some p \<longrightarrow> promise_at (codeManager st) p = Resolved c \<longrightarrow>
            (\<exists>wz. wizard st = Some wz \<and> pasted wz = Resolved c)))"

text \<open>
  The registry stays consistent; while the code promise is pending its request is in
  the table under the nonce, listening to the token of this invocation; and once that
  token was cancelled during the invocation, the code promise is no longer pending.
\<close>

definition registry_inv :: "OAuth2TriggerOptions \<Rightarrow> trigger_state \<Rightarrow> bool" where
  "registry_inv options st =
     (consistent (codeManager st)
      \<and> (code_promise st = None \<longrightarrow> phase st = Finished)
      \<and> (\<forall>p. code_promise st = Some p \<longrightarrow>
            (promise_at (codeManager st) p = Pending \<longrightarrow>
               (\<exists>r. map_of (pending (codeManager st)) (nonce options) = Some r
                    \<and> promise_id r = p \<and> cancellation r = token st))
            \<and> (cancelled st \<and> phase st \<noteq> Finished \<longrightarrow>
                  promise_at (codeManager st) p \<noteq> Pending)))"

text \<open>
  While the invocation has a code promise, an entry under its nonce is the request of
  that promise, with its timer set to 60 seconds after the call of \<^verbatim>\<open>trigger\<close>.
\<close>

definition timer_inv :: "OAuth2TriggerOptions \<Rightarrow> nat \<Rightarrow> trigger_state \<Rightarrow> bool" where
  "timer_inv options now st =
     (\<forall>p r. code_promise st = Some p \<longrightarrow>
        map_of (pending (codeManager st)) (nonce options) = Some r \<longrightarrow>
        promise_id r = p \<and> timeoutHandle r = now + TIMEOUT_MS)"

text \<open>Everything that holds of a state at any point of a turn.\<close>

definition within_turn :: "ProxiedRedirectFlow \<Rightarrow> OAuth2TriggerOptions \<Rightarrow> nat \<Rightarrow> trigger_state \<Rightarrow> bool" where
  "within_turn fl options now st =
     (shape_inv st \<and> code_inv fl st \<and> registry_inv options st \<and> timer_inv options now st)"

text \<open>
  Between two turns, moreover, no continuation is waiting to run: the wizard is not in
  its second shape, and while \<^verbatim>\<open>trigger\<close> awaits the code its promise is pending.
\<close>

definition between_turns :: "ProxiedRedirectFlow \<Rightarrow> OAuth2TriggerOptions \<Rightarrow> nat \<Rightarrow> trigger_state \<Rightarrow> bool" where
  "between_turns fl options now st =
     (within_turn fl options now st
      \<and> (\<forall>wz. wizard st = Some wz \<longrightarrow> \<not> settling_wizard wz)
      \<and> (phase st = AwaitCode \<longrightarrow>
            (\<exists>p. code_promise st = Some p \<and> promise_at (codeManager st) p = Pending)))"

text \<open>Whether the input box of the invocation is on screen, and whether it is disposed.\<close>

definition box_displayed :: "trigger_state \<Rightarrow> bool" where
  "box_displayed st =
     (case wizard st of
        None \<Rightarrow> False
      | Some wz \<Rightarrow> (case current (runner wz) of
                     None \<Rightarrow> False
                   | Some box \<Rightarrow> shown box \<and> \<not> disposed box))"

definition box_disposed :: "trigger_state \<Rightarrow> bool" where
  "box_disposed st =
     (case wizard st of
        None \<Rightarrow> False
      | Some wz \<Rightarrow> (case current (runner wz) of
                     None \<Rightarrow> False
                   | Some box \<Rightarrow> disposed box \<and> \<not> shown box))"

section \<open>Session storage (\<^verbatim>\<open>auth/storage.ts\<close>)\<close>

subsection \<open>JSON values and \<^verbatim>\<open>JSON.stringify\<close>\<close>

text \<open>
  A JSON value.  A number keeps its literal text.  The members of an object are in the
  order of the text; of two members with the same key the later one counts.  Strings
  are lists of 8-bit characters, so code units above 255 are outside the model.
\<close>

datatype json =
    JNull
  | JBool bool
  | JNumber string
  | JString string
  | JArray "json list"
  | JObject "(string \<times> json) list"

definition dquote :: char where
  "dquote = CHR 0x22"

definition backslash :: char where
  "backslash = CHR 0x5C"

definition hexdigit :: "nat \<Rightarrow> char" where
  "hexdigit n = (if n < 10 then char_of (48 + n) else char_of (87 + n))"

text \<open>
  How \<^verbatim>\<open>JSON.stringify\<close> writes one character of a string: the quote and the backslash
  are escaped, the control characters are written as their short escapes or as
  \<^verbatim>\<open>\u00XX\<close>, every other character stands for itself.
\<close>

definition quote_char :: "char \<Rightarrow> string" where
  "quote_char c =
     (if c = dquote then [backslash, dquote]
      else if c = backslash then [backslash, backslash]
      else if c = CHR 0x08 then [backslash, CHR ''b'']
      else if c = CHR 0x0C then [backslash, CHR ''f'']
      else if c = CHR 0x0A then [backslash, CHR ''n'']
      else if c = CHR 0x0D then [backslash, CHR ''r'']
      else if c = CHR 0x09 then [backslash, CHR ''t'']
      else if (of_char c :: nat) < 32 then
        [backslash, CHR ''u'', CHR ''0'', CHR ''0'',
         hexdigit (of_char c div 16), hexdigit (of_char c mod 16)]
      else [c])"

definition quote :: "string \<Rightarrow> string" where
  "quote s = dquote # concat (map quote_char s) @ [dquote]"

fun stringify :: "json \<Rightarrow> string" where
  "stringify JNull = ''null''"
| "stringify (JBool b) = (if b then ''true'' else ''false'')"
| "stringify (JNumber t) = t"
| "stringify (JString s) = quote s"
| "stringify (JArray xs) = ''['' @ join '','' (map stringify xs) @ '']''"
| "stringify (JObject kvs) =
     ''{'' @ join '','' (map (\<lambda>(k, v). quote k @ '':'' @ stringify v) kvs) @ ''}''"

subsection \<open>\<^verbatim>\<open>JSON.parse\<close>: the tokens\<close>

datatype token =
    LBrace | RBrace | LBrack | RBrack | Colon | Comma
  | TString string | TNumber string | TTrue | TFalse | TNull

definition hexval :: "char \<Rightarrow> nat option" where
  "hexval c =
     (let n = (of_char c :: nat)
      in if 48 \<le> n \<and> n \<le> 57 then Some (n - 48)
         else if 97 \<le> n \<and> n \<le> 102 then Some (n - 87)
         else if 65 \<le> n \<and> n \<le> 70 then Some (n - 55)
         else None)"

definition hex4 :: "char \<Rightarrow> char \<Rightarrow> char \<Rightarrow> char \<Rightarrow> nat option" where
  "hex4 a b c d =
     (case (hexval a, hexval b, hexval c, hexval d) of
        (Some h1, Some h2, Some h3, Some h4) \<Rightarrow> Some (((h1 * 16 + h2) * 16 + h3) * 16 + h4)
      | _ \<Rightarrow> None)"

definition unescape :: "char \<Rightarrow> char option" where
  "unescape e =
     (if e = dquote then Some dquote
      else if e = backslash then Some backslash
      else if e = CHR ''/'' then Some (CHR ''/'')
      else if e = CHR ''b'' then Some (CHR 0x08)
      else if e = CHR ''f'' then Some (CHR 0x0C)
      else if e = CHR ''n'' then Some (CHR 0x0A)
      else if e = CHR ''r'' then Some (CHR 0x0D)
      else if e = CHR ''t'' then Some (CHR 0x09)
      else None)"

text \<open>
  One escape of a string, after its backslash: the character it denotes and the input
  after it.  An escape \<^verbatim>\<open>\uXXXX\<close> above 255 is outside the model and is refused.
\<close>

definition lex_escape :: "string \<Rightarrow> (char \<times> string) option" where
  "lex_escape cs =
     (case cs of
        [] \<Rightarrow> None
      | e # cs1 \<Rightarrow>
         if e = CHR ''u'' then
           (case cs1 of
              h1 # h2 # h3 # h4 # cs2 \<Rightarrow>
                (case hex4 h1 h2 h3 h4 of
                   None \<Rightarrow> None
                 | Some n \<Rightarrow> if n < 256 then Some (char_of n, cs2) else None)
            | _ \<Rightarrow> None)
         else map_option (\<lambda>ch. (ch, cs1)) (unescape e))"

lemma lex_escape_shorter:
  "lex_escape cs = Some (ch, rest) \<Longrightarrow> length rest < length cs"
  by (auto simp: lex_escape_def split: list.splits if_splits option.splits)

text \<open>
  The rest of a string after its opening quote: the characters read so far (latest
  first) and the input; the result is the string and the input after the closing quote.
\<close>

function lex_string :: "string \<Rightarrow> string \<Rightarrow> (string \<times> string) option" where
  "lex_string acc [] = None"
| "lex_string acc (c # cs) =
     (if c = dquote then Some (rev acc, cs)
      else if c = backslash then
        (case lex_escape cs of
           None \<Rightarrow> None
         | Some (ch, rest) \<Rightarrow> lex_string (ch # acc) rest)
      else if (of_char c :: nat) < 32 then None
      else lex_string (c # acc) cs)"
  by pat_completeness auto

termination
  by (relation "measure (\<lambda>(acc, cs). length cs)") (auto dest: lex_escape_shorter)

definition is_digit :: "char \<Rightarrow> bool" where
  "is_digit c = (48 \<le> (of_char c :: nat) \<and> (of_char c :: nat) \<le> 57)"

definition number_char :: "char \<Rightarrow> bool" where
  "number_char c =
     (is_digit c \<or> c = CHR ''-'' \<or> c = CHR ''+'' \<or> c = CHR ''.'' \<or> c = CHR ''e'' \<or> c = CHR ''E'')"

definition valid_exponent :: "string \<Rightarrow> bool" where
  "valid_exponent t =
     (case t of
        [] \<Rightarrow> True
      | c # r \<Rightarrow>
         (c = CHR ''e'' \<or> c = CHR ''E'')
         \<and> (let ds = (case r of
                        [] \<Rightarrow> r
                      | s # q \<Rightarrow> if s = CHR ''+'' \<or> s = CHR ''-'' then q else r)
            in ds \<noteq> [] \<and> list_all is_digit ds))"

definition valid_fraction :: "string \<Rightarrow> bool" where
  "valid_fraction t =
     (case t of
        [] \<Rightarrow> True
      | c # r \<Rightarrow>
         if c = CHR ''.'' then takeWhile is_digit r \<noteq> [] \<and> valid_exponent (dropWhile is_digit r)
         else valid_exponent t)"

definition valid_number :: "string \<Rightarrow> bool" where
  "valid_number t =
     (let u = (case t of [] \<Rightarrow> t | c # r \<Rightarrow> if c = CHR ''-'' then r else t);
          ip = takeWhile is_digit u
      in ip \<noteq> [] \<and> (if hd ip = CHR ''0'' then length ip = 1 else True)
         \<and> valid_fraction (dropWhile is_digit u))"

definition whitespace :: "char \<Rightarrow> bool" where
  "whitespace c = (c = CHR 0x20 \<or> c = CHR 0x09 \<or> c = CHR 0x0A \<or> c = CHR 0x0D)"

lemma lex_string_shorter:
  "lex_string acc cs = Some (s, rest) \<Longrightarrow> length rest < length cs"
proof (induction acc cs rule: lex_string.induct)
  case (1 acc)
  then show ?case by simp
next
  case (2 acc c cs)
  show ?case
  proof (cases "c = dquote")
    case True
    with 2 show ?thesis by simp
  next
    case nq: False
    show ?thesis
    proof (cases "c = backslash")
      case True
      with nq 2(3) obtain ch r where e: "lex_escape cs = Some (ch, r)"
        and l: "lex_string (ch # acc) r = Some (s, rest)"
        by (auto split: option.splits)
      from 2(1)[OF nq True e refl l] lex_escape_shorter[OF e] show ?thesis by simp
    next
      case nb: False
      with nq 2(3) have c: "\<not> (of_char c :: nat) < 32" and l: "lex_string (c # acc) cs = Some (s, rest)"
        by (auto split: if_splits)
      from 2(2)[OF nq nb c l] show ?thesis by simp
    qed
  qed
qed

function lex :: "string \<Rightarrow> token list option" where
  "lex [] = Some []"
| "lex (c # cs) =
     (if whitespace c then lex cs
      else if c = CHR ''{'' then map_option (Cons LBrace) (lex cs)
      else if c = CHR ''}'' then map_option (Cons RBrace) (lex cs)
      else if c = CHR ''['' then map_option (Cons LBrack) (lex cs)
      else if c = CHR '']'' then map_option (Cons RBrack) (lex cs)
      else if c = CHR '':'' then map_option (Cons Colon) (lex cs)
      else if c = CHR '','' then map_option (Cons Comma) (lex cs)
      else if c = dquote then
        (case lex_string [] cs of
           None \<Rightarrow> None
         | Some (s, rest) \<Rightarrow> map_option (Cons (TString s)) (lex rest))
      else if number_char c then
        (if valid_number (c # takeWhile number_char cs)
         then map_option (Cons (TNumber (c # takeWhile number_char cs)))
                (lex (dropWhile number_char cs))
         else None)
      else if c = CHR ''t'' \<and> take 3 cs = ''rue'' then map_option (Cons TTrue) (lex (drop 3 cs))
      else if c = CHR ''f'' \<and> take 4 cs = ''alse'' then map_option (Cons TFalse) (lex (drop 4 cs))
      else if c = CHR ''n'' \<and> take 3 cs = ''ull'' then map_option (Cons TNull) (lex (drop 3 cs))
      else None)"
  by pat_completeness auto

termination
  by (relation "measure length")
    (auto dest: lex_string_shorter simp: length_dropWhile_le less_Suc_eq_le)

subsection \<open>\<^verbatim>\<open>JSON.parse\<close>: the grammar\<close>

text \<open>
  The parser reads the tokens one by one.  Its stack holds the containers that are
  open: an array with its elements so far, an object with its members so far, or an
  object that has read a key and its colon and waits for the value.
\<close>

datatype frame =
    InArray "json list"
  | InObject "(string \<times> json) list"
  | InMember "(string \<times> json) list" string

datatype mode =
    ExpectValue
  | ExpectValueOrEnd
  | ExpectKeyOrEnd
  | ExpectKey
  | ExpectColon string
  | ExpectCommaOrEnd
  | Complete json

text \<open>A value is complete: it goes into the container on top of the stack.\<close>

fun place :: "json \<Rightarrow> frame list \<Rightarrow> (frame list \<times> mode) option" where
  "place v [] = Some ([], Complete v)"
| "place v (InArray xs # st) = Some (InArray (xs @ [v]) # st, ExpectCommaOrEnd)"
| "place v (InMember kvs k # st) = Some (InObject (kvs @ [(k, v)]) # st, ExpectCommaOrEnd)"
| "place v (InObject kvs # st) = None"

fun scalar :: "token \<Rightarrow> json option" where
  "scalar (TString s) = Some (JString s)"
| "scalar (TNumber t) = Some (JNumber t)"
| "scalar TTrue = Some (JBool True)"
| "scalar TFalse = Some (JBool False)"
| "scalar TNull = Some JNull"
| "scalar t = None"

fun close_array :: "frame list \<Rightarrow> (frame list \<times> mode) option" where
  "close_array (InArray xs # st) = place (JArray xs) st"
| "close_array st = None"

fun close_object :: "frame list \<Rightarrow> (frame list \<times> mode) option" where
  "close_object (InObject kvs # st) = place (JObject kvs) st"
| "close_object st = None"

fun begin_value :: "token \<Rightarrow> frame list \<Rightarrow> (frame list \<times> mode) option" where
  "begin_value LBrack st = Some (InArray [] # st, ExpectValueOrEnd)"
| "begin_value LBrace st = Some (InObject [] # st, ExpectKeyOrEnd)"
| "begin_value t st = (case scalar t of None \<Rightarrow> None | Some v \<Rightarrow> place v st)"

fun parse_token :: "token \<Rightarrow> frame list \<times> mode \<Rightarrow> (frame list \<times> mode) option" where
  "parse_token t (st, ExpectValue) = begin_value t st"
| "parse_token t (st, ExpectValueOrEnd) =
     (if t = RBrack then close_array st else begin_value t st)"
| "parse_token t (st, ExpectKeyOrEnd) =
     (case t of
        TString k \<Rightarrow> Some (st, ExpectColon k)
      | RBrace \<Rightarrow> close_object st
      | _ \<Rightarrow> None)"
| "parse_token t (st, ExpectKey) =
     (case t of TString k \<Rightarrow> Some (st, ExpectColon k) | _ \<Rightarrow> None)"
| "parse_token t (st, ExpectColon k) =
     (case (t, st) of
        (Colon, InObject kvs # st') \<Rightarrow> Some (InMember kvs k # st', ExpectValue)
      | _ \<Rightarrow> None)"
| "parse_token t (st, ExpectCommaOrEnd) =
     (case (t, st) of
        (Comma, InArray xs # st') \<Rightarrow> Some (st, ExpectValue)
      | (Comma, InObject kvs # st') \<Rightarrow> Some (st, ExpectKey)
      | (RBrack, _) \<Rightarrow> close_array st
      | (RBrace, _) \<Rightarrow> close_object st
      | _ \<Rightarrow> None)"
| "parse_token t (st, Complete v) = None"

fun parse_tokens :: "token list \<Rightarrow> frame list \<times> mode \<Rightarrow> (frame list \<times> mode) option" where
  "parse_tokens [] s = Some s"
| "parse_tokens (t # ts) s =
     (case parse_token t s of None \<Rightarrow> None | Some s' \<Rightarrow> parse_tokens ts s')"

text \<open>\<^verbatim>\<open>JSON.parse\<close>: a \<^verbatim>\<open>SyntaxError\<close> unless the text is exactly one value.\<close>

definition JSON_parse :: "string \<Rightarrow> error + json" where
  "JSON_parse text =
     (case lex text of
        None \<Rightarrow> Inl (Other ''SyntaxError'')
      | Some ts \<Rightarrow>
         (case parse_tokens ts ([], ExpectValue) of
            Some ([], Complete v) \<Rightarrow> Inr v
          | _ \<Rightarrow> Inl (Other ''SyntaxError'')))"

subsection \<open>The Zod schemas\<close>

text \<open>
  A property of a parsed object: the last member with the key, \<open>None\<close> for
  \<^verbatim>\<open>undefined\<close>.
\<close>

definition property :: "(string \<times> json) list \<Rightarrow> string \<Rightarrow> json option" where
  "property kvs k = map_of (rev kvs) k"

definition ZodError :: error where
  "ZodError = Other ''ZodError''"

text \<open>\<^verbatim>\<open>z.string()\<close>\<close>

fun z_string :: "json option \<Rightarrow> error + string" where
  "z_string (Some (JString s)) = Inr s"
| "z_string j = Inl ZodError"

text \<open>\<^verbatim>\<open>z.array(element)\<close>: every element must parse.\<close>

fun z_array :: "(json option \<Rightarrow> error + 'a) \<Rightarrow> json option \<Rightarrow> error + 'a list" where
  "z_array element (Some (JArray xs)) =
     foldr (\<lambda>x r. case element (Some x) of
                     Inl e \<Rightarrow> Inl e
                   | Inr v \<Rightarrow> (case r of Inl e \<Rightarrow> Inl e | Inr vs \<Rightarrow> Inr (v # vs)))
       xs (Inr [])"
| "z_array element j = Inl ZodError"

text \<open>
  \<^verbatim>\<open>AuthenticationSessionAccountInformationSchema\<close>; an object schema reads the
  properties it names and drops the others.
\<close>

fun AuthenticationSessionAccountInformationSchema :: "json option \<Rightarrow> error + AccountInformation" where
  "AuthenticationSessionAccountInformationSchema (Some (JObject kvs)) =
     (case (z_string (property kvs ''id''), z_string (property kvs ''label'')) of
        (Inr i, Inr l) \<Rightarrow> Inr \<lparr>account_id = i, account_label = l\<rparr>
      | _ \<Rightarrow> Inl ZodError)"
| "AuthenticationSessionAccountInformationSchema j = Inl ZodError"

fun AuthenticationSessionSchema :: "json option \<Rightarrow> error + AuthenticationSession" where
  "AuthenticationSessionSchema (Some (JObject kvs)) =
     (case (z_string (property kvs ''id''), z_string (property kvs ''accessToken''),
            AuthenticationSessionAccountInformationSchema (property kvs ''account''),
            z_array z_string (property kvs ''scopes'')) of
        (Inr i, Inr t, Inr a, Inr sc) \<Rightarrow>
          Inr \<lparr>session_id = i, accessToken = t, account = a, scopes = sc\<rparr>
      | _ \<Rightarrow> Inl ZodError)"
| "AuthenticationSessionSchema j = Inl ZodError"

text \<open>\<^verbatim>\<open>AuthenticationSessionsSchema\<close>: \<^verbatim>\<open>z.array(z.object({...})).length(1)\<close>\<close>

definition AuthenticationSessionsSchema :: "json \<Rightarrow> error + AuthenticationSession list" where
  "AuthenticationSessionsSchema j =
     (case z_array AuthenticationSessionSchema (Some j) of
        Inl e \<Rightarrow> Inl e
      | Inr sessions \<Rightarrow> if length sessions = 1 then Inr sessions else Inl ZodError)"

definition parseAuthenticationSessions :: "string \<Rightarrow> error + AuthenticationSession list" where
  "parseAuthenticationSessions sessionsJson =
     (case JSON_parse sessionsJson of
        Inl e \<Rightarrow> Inl e
      | Inr sessions \<Rightarrow> AuthenticationSessionsSchema sessions)"

subsection \<open>\<^verbatim>\<open>AuthStorage\<close> over the secret storage\<close>

text \<open>
  \<^verbatim>\<open>vscode.SecretStorage\<close>: what is stored under each key, and the calls made to it.
\<close>

datatype secret_call = Get string | Store string string | Delete string

record SecretStorage =
  contents :: "string \<Rightarrow> string option"
  calls :: "secret_call list"

definition secrets_get :: "string \<Rightarrow> SecretStorage \<Rightarrow> string option \<times> SecretStorage" where
  "secrets_get k ss = (contents ss k, ss\<lparr>calls := calls ss @ [Get k]\<rparr>)"

definition secrets_store :: "string \<Rightarrow> string \<Rightarrow> SecretStorage \<Rightarrow> SecretStorage" where
  "secrets_store k v ss = ss\<lparr>contents := (contents ss)(k \<mapsto> v), calls := calls ss @ [Store k v]\<rparr>"

definition secrets_delete :: "string \<Rightarrow> SecretStorage \<Rightarrow> SecretStorage" where
  "secrets_delete k ss = ss\<lparr>contents := (contents ss)(k := None), calls := calls ss @ [Delete k]\<rparr>"

text \<open>
  \<^verbatim>\<open>PROVIDER_ID\<close> comes from \<^verbatim>\<open>config/constants\<close>, which is not among the sources; the
  tests of the provider use it as the publisher in \<^verbatim>\<open>vscode://google.colab\<close>.
\<close>

definition PROVIDER_ID :: string where
  "PROVIDER_ID = ''google''"

definition SESSIONS_KEY :: string where
  "SESSIONS_KEY = PROVIDER_ID @ ''.sessions''"

text \<open>
  A session as the value \<^verbatim>\<open>JSON.stringify\<close> sees, with its properties in the order
  \<^verbatim>\<open>createSession\<close> writes them.
\<close>

definition session_json :: "AuthenticationSession \<Rightarrow> json" where
  "session_json s =
     JObject [(''id'', JString (session_id s)), (''accessToken'', JString (accessToken s)),
              (''account'', JObject [(''label'', JString (account_label (account s))),
                                     (''id'', JString (account_id (account s)))]),
              (''scopes'', JArray (map JString (scopes s)))]"

text \<open>\<^verbatim>\<open>AuthStorage.getSession\<close>\<close>

definition getSession :: "SecretStorage
    \<Rightarrow> (error + AuthenticationSession option) \<times> SecretStorage" where
  "getSession ss =
     (let (sessionJson, ss1) = secrets_get SESSIONS_KEY ss
      in case sessionJson of
           None \<Rightarrow> (Inr None, ss1)
         | Some t \<Rightarrow>
            if t = [] then (Inr None, ss1)
            else (case parseAuthenticationSessions t of
                    Inl e \<Rightarrow> (Inl e, ss1)
                  | Inr sessions \<Rightarrow>
                     (case sessions of
                        [session] \<Rightarrow> (Inr (Some session), ss1)
                      | _ \<Rightarrow> (Inl (Other ''Unexpected number of sessions''), ss1))))"

text \<open>\<^verbatim>\<open>AuthStorage.storeSession\<close>\<close>

definition storeSession :: "AuthenticationSession \<Rightarrow> SecretStorage \<Rightarrow> SecretStorage" where
  "storeSession session ss =
     secrets_store SESSIONS_KEY (stringify (JArray [session_json session])) ss"

text \<open>\<^verbatim>\<open>AuthStorage.removeSession\<close>\<close>

definition removeSession :: "string \<Rightarrow> SecretStorage
    \<Rightarrow> (error + AuthenticationSession option) \<times> SecretStorage" where
  "removeSession sessionId ss =
     (case getSession ss of
        (Inl e, ss1) \<Rightarrow> (Inl e, ss1)
      | (Inr None, ss1) \<Rightarrow> (Inr None, ss1)
      | (Inr (Some session), ss1) \<Rightarrow>
          if session_id session \<noteq> sessionId then (Inr None, ss1)
          else (Inr (Some session), secrets_delete SESSIONS_KEY ss1))"

text \<open>The session of the tests of the storage, and an empty secret storage.\<close>

definition DEFAULT_SESSION :: AuthenticationSession where
  "DEFAULT_SESSION =
     \<lparr>session_id = ''1'', accessToken = ''42'',
      account = \<lparr>account_id = ''foo'', account_label = ''bar''\<rparr>, scopes = [''baz'']\<rparr>"

definition SecretStorageFake :: SecretStorage where
  "SecretStorageFake = \<lparr>contents = (\<lambda>k. None), calls = []\<rparr>"

text \<open>The tokens of an array of strings, and of a stored session.\<close>

fun string_tokens :: "string list \<Rightarrow> token list" where
  "string_tokens [] = []"
| "string_tokens (y # ys) = TString y # concat (map (\<lambda>y. [Comma, TString y]) ys)"

section \<open>Properties of the runner\<close>

lemma step_while_fuel:
  "step_while n beh w m st = Some r \<Longrightarrow> step_while (n + k) beh w m st = Some r"
proof (induction n beh w m st rule: step_while.induct)
  case (1 n beh w m)
  then show ?case by simp
next
  case (2 beh w m f)
  then show ?case by simp
next
  case (3 n beh w m f)
  then show ?case
    by (auto simp: Let_def split: prod.splits sum.splits)
qed

lemma MultiStepInput_update_swap:
  "m\<lparr>current := c, steps := s\<rparr> = m\<lparr>steps := s, current := c\<rparr>"
  by (cases m) simp

text \<open>
  Claim C4.  A step that throws \<^verbatim>\<open>InputFlowAction.back\<close> is taken off the stack.  If
  it was the only step on the stack, \<open>Back\<close> leaves \<^verbatim>\<open>step\<close> (after the
  \<^verbatim>\<open>finally\<close> has disposed the current widget), so the promise of \<^verbatim>\<open>run\<close> rejects
  with it.  Otherwise the step below it is popped as well and is the next one the loop
  invokes.  With the two stubs of the test (step 2 goes back once, then completes) the
  steps are called in the order 1, 2, 1, 2 and the run is fulfilled.
\<close>

theorem C4_back_pops_and_reinvokes:
  assumes "beh f w (current (step_push f m)) = (Throws Back, w', c')"
  shows "(steps m = [] \<longrightarrow>
            step (Suc n) beh w m f =
              Some (Inl Back, w', m\<lparr>steps := [], current := map_option dispose c'\<rparr>))
       \<and> (steps m \<noteq> [] \<longrightarrow>
            step_while (Suc n) beh w m (Some f) =
              step_while n beh w' (m\<lparr>steps := butlast (steps m), current := c'\<rparr>)
                (Some (last (steps m))))
       \<and> run 4 (spied back_once) (0, []) 1 =
            Some (Inr (), (2, [1, 2, 1, 2]), \<lparr>steps = [1, 2], current = None\<rparr>)"
proof (intro conjI impI)
  assume "steps m = []"
  with assms show "step (Suc n) beh w m f =
      Some (Inl Back, w', m\<lparr>steps := [], current := map_option dispose c'\<rparr>)"
    by (simp add: step_def step_push_def step_finally_def MultiStepInput_update_swap)
next
  assume "steps m \<noteq> []"
  with assms show "step_while (Suc n) beh w m (Some f) =
      step_while n beh w' (m\<lparr>steps := butlast (steps m), current := c'\<rparr>)
        (Some (last (steps m)))"
    by (simp add: step_push_def MultiStepInput_update_swap)
next
  show "run 4 (spied back_once) (0, []) 1 =
      Some (Inr (), (2, [1, 2, 1, 2]), \<lparr>steps = [1, 2], current = None\<rparr>)"
    by (simp add: run_def step_def step_push_def spied_def back_once_def step_finally_def
        eval_nat_numeral)
qed

theorem C4_back_witness:
  "back_once 2 0 (current (step_push 2 \<lparr>steps = [], current = None\<rparr>)) = (Throws Back, 1, None)
   \<and> step (Suc 0) back_once 0 \<lparr>steps = [], current = None\<rparr> 2 =
       Some (Inl Back, 1, \<lparr>steps = [], current = None\<rparr>)
   \<and> back_once 2 0 (current (step_push 2 \<lparr>steps = [1], current = None\<rparr>)) = (Throws Back, 1, None)
   \<and> step_while (Suc 2) back_once 0 \<lparr>steps = [1], current = None\<rparr> (Some 2) =
       step_while 2 back_once 1 \<lparr>steps = [], current = None\<rparr> (Some 1)"
proof -
  have h0: "back_once 2 0 (current (step_push 2 \<lparr>steps = [], current = None\<rparr>))
      = (Throws Back, 1, None)"
    by (simp add: back_once_def step_push_def)
  have h1: "back_once 2 0 (current (step_push 2 \<lparr>steps = [1], current = None\<rparr>))
      = (Throws Back, 1, None)"
    by (simp add: back_once_def step_push_def)
  show ?thesis
    using h0 h1
      C4_back_pops_and_reinvokes [of back_once 2 0 "\<lparr>steps = [], current = None\<rparr>" 1 None 0]
      C4_back_pops_and_reinvokes [of back_once 2 0 "\<lparr>steps = [1], current = None\<rparr>" 1 None 2]
    by simp
qed

text \<open>
  Claim C5.  When the step the loop invokes throws \<^verbatim>\<open>InputFlowAction.cancel\<close>, at
  whatever point of a run (any stack, any current widget), the loop ends there without
  an exception: the spy's log grows by exactly that one call, the result is the normal
  one, and so \<^verbatim>\<open>step\<close> (hence the promise of \<^verbatim>\<open>run\<close>) is fulfilled once the
  \<^verbatim>\<open>finally\<close> has disposed the current widget.
\<close>

theorem C5_cancel_stops_quietly:
  assumes "beh f w (current (step_push f m)) = (Throws Cancel, w', c')"
  shows "step_while (Suc n) (spied beh) (w, seen) m (Some f) =
           Some (Inr (), (w', seen @ [f]), m\<lparr>steps := steps m @ [f], current := c'\<rparr>)
       \<and> step (Suc n) (spied beh) (w, seen) m f =
           Some (Inr (), (w', seen @ [f]),
                 m\<lparr>steps := steps m @ [f], current := map_option dispose c'\<rparr>)"
  using assms
  by (simp add: step_def step_push_def step_finally_def spied_def MultiStepInput_update_swap)

theorem C5_cancel_witness:
  "always_cancel 7 () (current (step_push 7 \<lparr>steps = [], current = None\<rparr>))
     = (Throws Cancel, (), None)
   \<and> run 1 (spied always_cancel) ((), []) 7 =
       Some (Inr (), ((), [7]), \<lparr>steps = [7], current = None\<rparr>)"
proof -
  have h: "always_cancel 7 () (current (step_push 7 \<lparr>steps = [], current = None\<rparr>))
      = (Throws Cancel, (), None)"
    by (simp add: step_push_def always_cancel_def)
  show ?thesis
    using h C5_cancel_stops_quietly
      [of always_cancel 7 "()" "\<lparr>steps = [], current = None\<rparr>" "()" None 0 "[]"]
    by (simp add: run_def)
qed

text \<open>
  Claim C6.  Every change of the value runs \<open>validate\<close> on the new value and stores the
  result as the box's validation message.  Accepting runs \<open>validate\<close> on the box's
  current value: the promise is resolved with that value when the result is no error
  (\<^verbatim>\<open>undefined\<close>, or the empty message, which JavaScript's \<^verbatim>\<open>!\<close> does not tell apart),
  and is left as it was when the result is an error message.  Typing \<^verbatim>\<open>f\<close>, \<^verbatim>\<open>fo\<close>,
  \<^verbatim>\<open>foo\<close> against the validator that needs \<^verbatim>\<open>foo\<close> shows a message for the first two
  and none for the third; accepting \<^verbatim>\<open>fo\<close> leaves the promise pending, accepting
  \<^verbatim>\<open>foo\<close> resolves it with \<^verbatim>\<open>foo\<close>.
\<close>

theorem C6_validate_on_change_and_accept:
  "validationMessage (input (onDidChangeValue opts t p)) = validate opts t
   \<and> settled (onDidChangeValue opts t p) = settled p
   \<and> settled (onDidAccept opts p) =
       (if falsy (validate opts (box_value (input p))) then resolve (box_value (input p)) (settled p)
        else settled p)
   \<and> map (\<lambda>evs. validationMessage (input (foldl (\<lambda>q ev. deliver need_foo ev q) (showInputBox need_foo) evs)))
        [[Type ''f''], [Type ''f'', Type ''fo''], [Type ''f'', Type ''fo'', Type ''foo'']]
       = [Some ''Nope, need foo'', Some ''Nope, need foo'', None]
   \<and> settled (foldl (\<lambda>q ev. deliver need_foo ev q) (showInputBox need_foo)
        [Type ''f'', Type ''fo'', Accept]) = Pending
   \<and> settled (foldl (\<lambda>q ev. deliver need_foo ev q) (showInputBox need_foo)
        [Type ''f'', Type ''fo'', Accept, Type ''foo'', Accept]) = Resolved ''foo''"
  by (simp add: onDidChangeValue_def onDidAccept_def Let_def deliver_def showInputBox_def
      showInputBox_create_def createInputBox_def show_def showInputBox_finally_def need_foo_def)

section \<open>Properties of the authentication provider\<close>

lemma foldl_Set_add:
  "distinct s \<Longrightarrow>
     distinct (foldl (\<lambda>s x. Set_add x s) s xs) \<and>
     set (foldl (\<lambda>s x. Set_add x s) s xs) = set s \<union> set xs"
  by (induction xs arbitrary: s) (auto simp: Set_add_def)

lemma new_Set_props: "distinct (new_Set xs) \<and> set (new_Set xs) = set xs"
  using foldl_Set_add[of "[]" xs] by (simp add: new_Set_def)

lemma sortedScopes_props:
  "sorted (sort (new_Set (sc @ REQUIRED_SCOPES)))
   \<and> distinct (sort (new_Set (sc @ REQUIRED_SCOPES)))
   \<and> set (sort (new_Set (sc @ REQUIRED_SCOPES))) = set sc \<union> {''profile'', ''email''}"
  using new_Set_props[of "sc @ REQUIRED_SCOPES"]
  by (auto simp: REQUIRED_SCOPES_def)

lemma login_opened:
  "opened (snd (login env sc fx)) = opened fx
   \<or> (\<exists>cb v ch. getCallbackUri env (uuid_nonce env) fx = (Inr cb, fx)
        \<and> opened (snd (login env sc fx)) = opened fx @
            [generateAuthUrl (oAuth2Client env)
              [(''response_type'', ''code''), (''scope'', sc), (''state'', cb),
               (''prompt'', ''login''), (''code_challenge_method'', ''S256''),
               (''code_challenge'', ch)]])"
  by (auto simp: login_def andThen_def await_def getCallbackUri_def Let_def
      split: option.splits sum.splits prod.splits)

lemma createSession_opened:
  "opened (snd (createSession env sc fx)) = opened (snd (login env (join '' '' (sort (new_Set (sc @ REQUIRED_SCOPES)))) fx))"
  by (auto simp: createSession_def andThen_def await_def Let_def
      split: option.splits sum.splits prod.splits)

text \<open>
  Claim C8.  Whatever scopes are requested and whatever the collaborators answer,
  \<^verbatim>\<open>createSession\<close> opens at most one authorization URL, and that URL has
  \<^verbatim>\<open>response_type=code\<close>, a \<^verbatim>\<open>scope\<close> parameter that is the space-joined list of the
  requested scopes together with \<^verbatim>\<open>profile\<close> and \<^verbatim>\<open>email\<close>, sorted and without
  duplicates, and the external callback URI as its \<^verbatim>\<open>state\<close>.  With the stubs of the
  test the URL is opened and its scope is \<^verbatim>\<open>email profile\<close>.
\<close>

theorem C8_authorization_url:
  "(\<exists>ss. sorted ss \<and> distinct ss \<and> set ss = set sc \<union> {''profile'', ''email''} \<and>
      (opened (snd (createSession env sc fx)) = opened fx \<or>
       (\<exists>cb u. asExternalUri env (uriScheme env @ ''://'' @ publisher env @ ''.'' @
                   package_name env @ ''?nonce='' @ uuid_nonce env) = Inr cb
          \<and> opened (snd (createSession env sc fx)) = opened fx @ [u]
          \<and> map_of (params u) ''response_type'' = Some ''code''
          \<and> map_of (params u) ''scope'' = Some (join '' '' ss)
          \<and> map_of (params u) ''state'' = Some cb)))
   \<and> map (\<lambda>u. (map_of (params u) ''response_type'', map_of (params u) ''scope'',
                map_of (params u) ''state''))
        (opened (snd (createSession succeeding_env [''profile'', ''email''] no_effects)))
      = [(Some ''code'', Some ''email profile'', Some ''vscode://google.colab?nonce=n1&windowId=1'')]"
proof (intro conjI)
  let ?ss = "sort (new_Set (sc @ REQUIRED_SCOPES))"
  have props: "sorted ?ss \<and> distinct ?ss \<and> set ?ss = set sc \<union> {''profile'', ''email''}"
    by (rule sortedScopes_props)
  have "opened (snd (createSession env sc fx)) = opened fx \<or>
       (\<exists>cb u. asExternalUri env (uriScheme env @ ''://'' @ publisher env @ ''.'' @
                   package_name env @ ''?nonce='' @ uuid_nonce env) = Inr cb
          \<and> opened (snd (createSession env sc fx)) = opened fx @ [u]
          \<and> map_of (params u) ''response_type'' = Some ''code''
          \<and> map_of (params u) ''scope'' = Some (join '' '' ?ss)
          \<and> map_of (params u) ''state'' = Some cb)"
    using login_opened [of env "join '' '' ?ss" fx]
    unfolding createSession_opened
    by (auto simp: getCallbackUri_def await_def generateAuthUrl_def or_default_def)
  with props show "\<exists>ss. sorted ss \<and> distinct ss \<and> set ss = set sc \<union> {''profile'', ''email''} \<and>
      (opened (snd (createSession env sc fx)) = opened fx \<or>
       (\<exists>cb u. asExternalUri env (uriScheme env @ ''://'' @ publisher env @ ''.'' @
                   package_name env @ ''?nonce='' @ uuid_nonce env) = Inr cb
          \<and> opened (snd (createSession env sc fx)) = opened fx @ [u]
          \<and> map_of (params u) ''response_type'' = Some ''code''
          \<and> map_of (params u) ''scope'' = Some (join '' '' ss)
          \<and> map_of (params u) ''state'' = Some cb))"
    by blast
next
  show "map (\<lambda>u. (map_of (params u) ''response_type'', map_of (params u) ''scope'',
                map_of (params u) ''state''))
        (opened (snd (createSession succeeding_env [''profile'', ''email''] no_effects)))
      = [(Some ''code'', Some ''email profile'', Some ''vscode://google.colab?nonce=n1&windowId=1'')]"
    by (simp add: createSession_def login_def andThen_def await_def getCallbackUri_def
        generateAuthUrl_def or_default_def succeeding_env_def no_effects_def new_Set_def
        Set_add_def REQUIRED_SCOPES_def less_eq_char_def less_char_def Let_def)
qed

section \<open>Properties of the code registry\<close>

lemma reject_idem [simp]: "reject e (reject e p) = reject e p"
  by (cases p) auto

lemma length_reject_each [simp]: "length (reject_each P e es ps) = length ps"
  by (induction P e es ps rule: reject_each.induct) auto

lemma nth_reject_each:
  "i < length ps \<Longrightarrow>
     reject_each P e es ps ! i =
       (if \<exists>r \<in> snd ` set es. promise_id r = i \<and> P r then reject e (ps ! i) else ps ! i)"
proof (induction P e es ps rule: reject_each.induct)
  case (1 P e ps)
  then show ?case by simp
next
  case (2 P e n r rest ps)
  show ?case
  proof (cases "P r \<and> promise_id r = i")
    case True
    with 2 show ?thesis by auto
  next
    case False
    with 2 show ?thesis by (cases "P r") auto
  qed
qed

lemma consistent_new: "consistent new_CodeManager"
  by (simp add: consistent_def new_CodeManager_def)

lemma consistent_same_promise:
  assumes "consistent cm" "(n, r) \<in> set (pending cm)" "(n', r') \<in> set (pending cm)"
    "promise_id r = promise_id r'"
  shows "n = n' \<and> r = r'"
proof -
  have "inj_on (promise_id \<circ> snd) (set (pending cm))"
    using assms(1) by (simp add: consistent_def distinct_map)
  from inj_onD[OF this _ assms(2,3)] assms(4) show ?thesis by simp
qed

lemma consistent_same_nonce:
  assumes "consistent cm" "(n, r) \<in> set (pending cm)" "(n, r') \<in> set (pending cm)"
  shows "r = r'"
proof -
  have "inj_on fst (set (pending cm))"
    using assms(1) by (simp add: consistent_def distinct_map)
  from inj_onD[OF this _ assms(2,3)] show ?thesis by simp
qed

lemma consistent_pending:
  assumes "consistent cm" "(n, r) \<in> set (pending cm)"
  shows "promise_id r < length (promises cm) \<and> promises cm ! promise_id r = Pending"
  using assms by (auto simp: consistent_def list_all_iff)

lemma consistent_waitForCode:
  assumes "consistent cm" "waitForCode n tok now cm = Inr (p, cm')"
  shows "consistent cm'"
proof -
  from assms(2) have none: "map_of (pending cm) n = None"
    and cm': "cm' = cm\<lparr>pending := pending cm @
                      [(n, \<lparr>promise_id = length (promises cm),
                            timeoutHandle = now + TIMEOUT_MS, cancellation = tok\<rparr>)],
                  promises := promises cm @ [Pending]\<rparr>"
    by (auto simp: waitForCode_def split: option.splits)
  have old: "promise_id r < length (promises cm) \<and> promises cm ! promise_id r = Pending"
    if "(k, r) \<in> set (pending cm)" for k r
    using consistent_pending[OF assms(1) that] .
  have "n \<notin> fst ` set (pending cm)"
    using none by (simp add: map_of_eq_None_iff)
  moreover have "length (promises cm) \<notin> (promise_id \<circ> snd) ` set (pending cm)"
    using old by fastforce
  moreover have "list_all (\<lambda>(k, r). promise_id r < Suc (length (promises cm)) \<and>
      (promises cm @ [Pending]) ! promise_id r = Pending) (pending cm)"
    using old by (fastforce simp: list_all_iff nth_append)
  ultimately show ?thesis
    using assms(1) by (simp add: cm' consistent_def)
qed

lemma consistent_resolveCode:
  assumes "consistent cm"
  shows "consistent (resolveCode n c cm)"
proof (cases "map_of (pending cm) n")
  case None
  then show ?thesis using assms by (simp add: resolveCode_def)
next
  case (Some r)
  then have mem: "(n, r) \<in> set (pending cm)" by (rule map_of_SomeD)
  have other: "promise_id r \<noteq> promise_id r'"
    if "(k, r') \<in> set (pending cm)" "k \<noteq> n" for k r'
    using consistent_same_promise[OF assms mem that(1)] that(2) by auto
  have "distinct (map fst (filter (\<lambda>(k, r'). k \<noteq> n) (pending cm)))"
    and "distinct (map (promise_id \<circ> snd) (filter (\<lambda>(k, r'). k \<noteq> n) (pending cm)))"
    using assms by (simp_all add: consistent_def distinct_map_filter)
  moreover have "list_all (\<lambda>(k, r'). promise_id r' < length (promises cm) \<and>
      (promises cm)[promise_id r := resolve c (promises cm ! promise_id r)] ! promise_id r'
        = Pending) (filter (\<lambda>(k, r'). k \<noteq> n) (pending cm))"
    using consistent_pending[OF assms] other
    by (auto simp: list_all_iff)
  ultimately show ?thesis
    using Some by (simp add: consistent_def resolveCode_def)
qed

lemma consistent_reject_where:
  assumes "consistent cm"
  shows "consistent (reject_where P e cm)"
proof -
  have "distinct (map fst (filter (\<lambda>(k, r). \<not> P r) (pending cm)))"
    and "distinct (map (promise_id \<circ> snd) (filter (\<lambda>(k, r). \<not> P r) (pending cm)))"
    using assms by (simp_all add: consistent_def distinct_map_filter)
  moreover have "promise_id r < length (promises cm) \<and>
      reject_each P e (pending cm) (promises cm) ! promise_id r = Pending"
    if "(k, r) \<in> set (pending cm)" "\<not> P r" for k r
  proof -
    have p: "promise_id r < length (promises cm)" "promises cm ! promise_id r = Pending"
      using consistent_pending[OF assms that(1)] by simp_all
    have "\<not> (\<exists>r' \<in> snd ` set (pending cm). promise_id r' = promise_id r \<and> P r')"
      using consistent_same_promise[OF assms that(1)] that(2) by force
    with p show ?thesis by (simp add: nth_reject_each)
  qed
  then have "list_all (\<lambda>(k, r). promise_id r < length (promises cm) \<and>
      reject_each P e (pending cm) (promises cm) ! promise_id r = Pending)
      (filter (\<lambda>(k, r). \<not> P r) (pending cm))"
    by (auto simp: list_all_iff)
  ultimately show ?thesis
    by (simp add: consistent_def reject_where_def)
qed


lemma map_of_filter_values:
  "distinct (map fst xs) \<Longrightarrow>
     map_of (filter (\<lambda>(k, v). Q k v) xs) k =
       (case map_of xs k of None \<Rightarrow> None | Some v \<Rightarrow> if Q k v then Some v else None)"
proof (induction xs)
  case Nil
  then show ?case by simp
next
  case (Cons x xs)
  obtain k' v' where x: "x = (k', v')" by (cases x)
  from Cons.prems have "k' \<notin> fst ` set xs" and d: "distinct (map fst xs)"
    by (simp_all add: x)
  then have none: "map_of xs k' = None" by (simp add: map_of_eq_None_iff)
  note IH = Cons.IH[OF d]
  show ?case
  proof (cases "k = k'")
    case True
    with IH none show ?thesis by (simp add: x)
  next
    case False
    with IH show ?thesis by (simp add: x)
  qed
qed

lemma waitForCode_registers:
  assumes "waitForCode n tok now cm = Inr (p, cm')"
  shows "map_of (pending cm') n =
           Some \<lparr>promise_id = p, timeoutHandle = now + TIMEOUT_MS, cancellation = tok\<rparr>
         \<and> p = length (promises cm) \<and> promise_at cm' p = Pending
         \<and> map_of (pending cm) n = None"
  using assms
  by (auto simp: waitForCode_def promise_at_def map_add_def split: option.splits)

lemma reject_where_entry:
  assumes "consistent cm" "map_of (pending cm) n = Some r"
  shows "promise_at (reject_where P e cm) (promise_id r) = (if P r then Rejected e else Pending)
       \<and> map_of (pending (reject_where P e cm)) n = (if P r then None else Some r)"
proof -
  have mem: "(n, r) \<in> set (pending cm)" using assms(2) by (rule map_of_SomeD)
  have p: "promise_id r < length (promises cm)" "promises cm ! promise_id r = Pending"
    using consistent_pending[OF assms(1) mem] by simp_all
  have "(\<exists>r' \<in> snd ` set (pending cm). promise_id r' = promise_id r \<and> P r') = P r"
    using consistent_same_promise[OF assms(1) mem] mem by force
  with p have "promise_at (reject_where P e cm) (promise_id r) = (if P r then Rejected e else Pending)"
    by (simp add: promise_at_def reject_where_def nth_reject_each)
  moreover have "distinct (map fst (pending cm))"
    using assms(1) by (simp add: consistent_def)
  then have "map_of (pending (reject_where P e cm)) n = (if P r then None else Some r)"
    using assms(2)
    by (simp add: reject_where_def map_of_filter_values [where Q = "\<lambda>k r. \<not> P r"])
  ultimately show ?thesis by simp
qed

lemma resolveCode_entry:
  assumes "consistent cm" "map_of (pending cm) n = Some r"
  shows "promise_at (resolveCode n c cm) (promise_id r) = Resolved c
       \<and> map_of (pending (resolveCode n c cm)) n = None"
proof -
  have mem: "(n, r) \<in> set (pending cm)" using assms(2) by (rule map_of_SomeD)
  have p: "promise_id r < length (promises cm)" "promises cm ! promise_id r = Pending"
    using consistent_pending[OF assms(1) mem] by simp_all
  have "distinct (map fst (pending cm))"
    using assms(1) by (simp add: consistent_def)
  then have "map_of (filter (\<lambda>(k, r'). k \<noteq> n) (pending cm)) n = None"
    by (simp add: map_of_filter_values [where Q = "\<lambda>k r. k \<noteq> n"] split: option.splits)
  with p assms(2) show ?thesis
    by (simp add: resolveCode_def promise_at_def)
qed

lemma resolveCode_other:
  assumes "consistent cm" "map_of (pending cm) n = Some r" "n' \<noteq> n"
  shows "promise_at (resolveCode n' c cm) (promise_id r) = Pending
       \<and> map_of (pending (resolveCode n' c cm)) n = Some r"
proof (cases "map_of (pending cm) n'")
  case None
  have mem: "(n, r) \<in> set (pending cm)" using assms(2) by (rule map_of_SomeD)
  from None assms(2) consistent_pending[OF assms(1) mem] show ?thesis
    by (simp add: resolveCode_def promise_at_def)
next
  case (Some r')
  have mem: "(n, r) \<in> set (pending cm)" using assms(2) by (rule map_of_SomeD)
  have mem': "(n', r') \<in> set (pending cm)" using Some by (rule map_of_SomeD)
  have p: "promise_id r < length (promises cm)" "promises cm ! promise_id r = Pending"
    using consistent_pending[OF assms(1) mem] by simp_all
  have ne: "promise_id r' \<noteq> promise_id r"
    using consistent_same_promise[OF assms(1) mem' mem] assms(3) by auto
  have "distinct (map fst (pending cm))"
    using assms(1) by (simp add: consistent_def)
  then have "map_of (filter (\<lambda>(k, r'). k \<noteq> n') (pending cm)) n = Some r"
    using assms(2,3)
    by (simp add: map_of_filter_values [where Q = "\<lambda>k r. k \<noteq> n'"])
  with p ne Some show ?thesis
    by (simp add: resolveCode_def promise_at_def)
qed

lemma waitForCode_other:
  assumes "consistent cm" "map_of (pending cm) n = Some r"
    "waitForCode n' tok now cm = Inr (p, cm')"
  shows "promise_at cm' (promise_id r) = Pending \<and> map_of (pending cm') n = Some r"
proof -
  have mem: "(n, r) \<in> set (pending cm)" using assms(2) by (rule map_of_SomeD)
  have p: "promise_id r < length (promises cm)" "promises cm ! promise_id r = Pending"
    using consistent_pending[OF assms(1) mem] by simp_all
  from assms(3) have "n' \<noteq> n" using assms(2)
    by (auto simp: waitForCode_def split: option.splits)
  with assms(2,3) p show ?thesis
    by (auto simp: waitForCode_def promise_at_def nth_append split: option.splits)
qed

text \<open>Settled promises stay as they are.\<close>

lemma settled_reject_where:
  "promise_at cm p \<noteq> Pending \<Longrightarrow> promise_at (reject_where P e cm) p = promise_at cm p"
  by (cases "promise_at cm p")
    (auto simp: promise_at_def reject_where_def nth_reject_each split: if_splits)

lemma settled_resolveCode:
  assumes "promise_at cm p \<noteq> Pending"
  shows "promise_at (resolveCode n c cm) p = promise_at cm p"
proof (cases "map_of (pending cm) n")
  case None
  then show ?thesis by (simp add: resolveCode_def)
next
  case (Some r)
  from assms have p: "p < length (promises cm)" "promises cm ! p \<noteq> Pending"
    by (auto simp: promise_at_def split: if_splits)
  then have "resolve c (promises cm ! p) = promises cm ! p"
    by (cases "promises cm ! p") auto
  with p Some show ?thesis
    by (cases "promise_id r = p") (auto simp: resolveCode_def promise_at_def)
qed


lemma consistent_call: "consistent cm \<Longrightarrow> consistent (call k cm)"
  by (cases k)
    (auto simp: consistent_resolveCode consistent_reject_where onCancellationRequested_def
      onTimeout_def split: sum.splits dest: consistent_waitForCode)

lemma unrelated_call:
  assumes "consistent cm" "map_of (pending cm) n = Some r"
    "unrelated n (cancellation r) (timeoutHandle r) k"
  shows "promise_at (call k cm) (promise_id r) = Pending \<and> map_of (pending (call k cm)) n = Some r"
proof (cases k)
  case (Wait n' token' now)
  have mem: "(n, r) \<in> set (pending cm)" using assms(2) by (rule map_of_SomeD)
  show ?thesis
  proof (cases "waitForCode n' token' now cm")
    case (Inl e)
    with Wait assms(2) consistent_pending[OF assms(1) mem] show ?thesis
      by (simp add: promise_at_def)
  next
    case (Inr pc)
    then show ?thesis
      using Wait waitForCode_other[OF assms(1,2), of n' token' now "fst pc" "snd pc"]
      by (simp add: case_prod_beta)
  qed
next
  case (Deliver n' c)
  with assms resolveCode_other[OF assms(1,2), of n' c] show ?thesis by simp
next
  case (Fire token')
  with assms reject_where_entry[OF assms(1,2), of "\<lambda>r. cancellation r = token'" Cancelled]
  show ?thesis by (simp add: onCancellationRequested_def)
next
  case (Clock now)
  with assms reject_where_entry[OF assms(1,2), of "\<lambda>r. timeoutHandle r \<le> now" Timeout]
  show ?thesis by (simp add: onTimeout_def)
qed

lemma unrelated_calls:
  assumes "consistent cm" "map_of (pending cm) n = Some r"
    "list_all (unrelated n (cancellation r) (timeoutHandle r)) ks"
  shows "consistent (foldl (\<lambda>c k. call k c) cm ks)
       \<and> promise_at (foldl (\<lambda>c k. call k c) cm ks) (promise_id r) = Pending
       \<and> map_of (pending (foldl (\<lambda>c k. call k c) cm ks)) n = Some r"
  using assms
proof (induction ks arbitrary: cm)
  case Nil
  have "(n, r) \<in> set (pending cm)" using Nil(2) by (rule map_of_SomeD)
  from consistent_pending[OF Nil(1) this] Nil show ?case
    by (simp add: promise_at_def)
next
  case (Cons k ks)
  from Cons.prems have u: "unrelated n (cancellation r) (timeoutHandle r) k"
    and us: "list_all (unrelated n (cancellation r) (timeoutHandle r)) ks"
    by simp_all
  have "consistent (call k cm)" using Cons.prems(1) by (rule consistent_call)
  moreover have "map_of (pending (call k cm)) n = Some r"
    using unrelated_call[OF Cons.prems(1,2) u] by simp
  ultimately show ?case
    using Cons.IH[of "call k cm"] us by simp
qed

text \<open>
  Claim C3.  A request registered at time \<open>t0\<close> in a consistent registry stays pending,
  and stays in the table with its timer set to \<open>t0 + 60000\<close> milliseconds, through any
  calls that neither deliver a code for its nonce, nor fire its cancellation token, nor
  bring the clock to that time.  When the clock then reaches a time of at least
  \<open>t0 + 60000\<close>, the request is rejected with \<open>Timeout\<close> and is no longer in the table.
\<close>

theorem C3_timeout_after_60_seconds:
  assumes "consistent cm" and "waitForCode n tok t0 cm = Inr (p, cm1)"
    and "list_all (unrelated n tok (t0 + 60000)) ks"
  shows "promise_at (foldl (\<lambda>c k. call k c) cm1 ks) p = Pending
       \<and> map_of (pending (foldl (\<lambda>c k. call k c) cm1 ks)) n =
           Some \<lparr>promise_id = p, timeoutHandle = t0 + 60000, cancellation = tok\<rparr>
       \<and> (t0 + 60000 \<le> t \<longrightarrow>
            promise_at (onTimeout t (foldl (\<lambda>c k. call k c) cm1 ks)) p = Rejected Timeout
          \<and> map_of (pending (onTimeout t (foldl (\<lambda>c k. call k c) cm1 ks))) n = None)"
proof -
  let ?r = "\<lparr>promise_id = p, timeoutHandle = t0 + 60000, cancellation = tok\<rparr>"
  let ?cm = "foldl (\<lambda>c k. call k c) cm1 ks"
  have c1: "consistent cm1" using assms(1,2) by (rule consistent_waitForCode)
  have e1: "map_of (pending cm1) n = Some ?r"
    using waitForCode_registers[OF assms(2)] by (simp add: TIMEOUT_MS_def)
  have quiet: "consistent ?cm \<and> promise_at ?cm (promise_id ?r) = Pending
      \<and> map_of (pending ?cm) n = Some ?r"
    using unrelated_calls[OF c1 e1] assms(3) by simp
  then have c: "consistent ?cm" and e: "map_of (pending ?cm) n = Some ?r" by simp_all
  have "t0 + 60000 \<le> t \<longrightarrow>
      promise_at (onTimeout t ?cm) p = Rejected Timeout
      \<and> map_of (pending (onTimeout t ?cm)) n = None"
    using reject_where_entry[OF c e, of "\<lambda>r. timeoutHandle r \<le> t" Timeout]
    by (simp add: onTimeout_def)
  with quiet show ?thesis by simp
qed

theorem C3_timeout_witness:
  "consistent new_CodeManager
   \<and> waitForCode ''nonce'' 0 0 new_CodeManager =
       Inr (0, \<lparr>pending = [(''nonce'', \<lparr>promise_id = 0, timeoutHandle = 60000, cancellation = 0\<rparr>)],
                promises = [Pending]\<rparr>)
   \<and> list_all (unrelated ''nonce'' 0 (0 + 60000)) [Clock 59999, Deliver ''other'' ''42'']
   \<and> promise_at (foldl (\<lambda>c k. call k c)
        \<lparr>pending = [(''nonce'', \<lparr>promise_id = 0, timeoutHandle = 60000, cancellation = 0\<rparr>)],
         promises = [Pending]\<rparr> [Clock 59999, Deliver ''other'' ''42'']) 0 = Pending
   \<and> promise_at (onTimeout 60001 (foldl (\<lambda>c k. call k c)
        \<lparr>pending = [(''nonce'', \<lparr>promise_id = 0, timeoutHandle = 60000, cancellation = 0\<rparr>)],
         promises = [Pending]\<rparr> [Clock 59999, Deliver ''other'' ''42''])) 0 = Rejected Timeout"
proof -
  have w: "waitForCode ''nonce'' 0 0 new_CodeManager =
       Inr (0, \<lparr>pending = [(''nonce'', \<lparr>promise_id = 0, timeoutHandle = 60000, cancellation = 0\<rparr>)],
                promises = [Pending]\<rparr>)"
    by (simp add: waitForCode_def new_CodeManager_def TIMEOUT_MS_def)
  have u: "list_all (unrelated ''nonce'' 0 (0 + 60000)) [Clock 59999, Deliver ''other'' ''42'']"
    by simp
  show ?thesis
    using consistent_new w u
      C3_timeout_after_60_seconds [OF consistent_new w u, of 60001]
    by simp
qed

section \<open>Properties of the proxied redirect flow\<close>

lemma promise_at_reject_where_Resolved:
  "(promise_at (reject_where P e cm) p = Resolved c) = (promise_at cm p = Resolved c)"
proof (cases "p < length (promises cm)")
  case True
  then show ?thesis
    by (cases "promises cm ! p") (auto simp: promise_at_def reject_where_def nth_reject_each)
next
  case False
  then show ?thesis by (simp add: promise_at_def reject_where_def)
qed

lemma promise_at_resolveCode_Resolved:
  "promise_at (resolveCode n c cm) p = Resolved c' \<Longrightarrow> promise_at cm p = Resolved c' \<or> c' = c"
proof (cases "map_of (pending cm) n")
  case None
  assume "promise_at (resolveCode n c cm) p = Resolved c'"
  with None show ?thesis by (simp add: resolveCode_def)
next
  case (Some r)
  assume a: "promise_at (resolveCode n c cm) p = Resolved c'"
  show ?thesis
  proof (cases "promise_id r = p \<and> p < length (promises cm)")
    case True
    with a Some show ?thesis
      by (cases "promises cm ! p") (auto simp: resolveCode_def promise_at_def)
  next
    case False
    with a Some show ?thesis
      by (auto simp: resolveCode_def promise_at_def split: if_splits)
  qed
qed

lemma waiting_invoke_step: "waiting_wizard (invoke_step 0 \<lparr>steps = [], current = None\<rparr>)"
  by (simp add: waiting_wizard_def invoke_step_def showInputBox_def show_def step_push_def
      showInputBox_create_def createInputBox_def code_prompt_def)

text \<open>The three shapes exclude each other.\<close>

lemma wizard_shapes:
  "waiting_wizard wz \<Longrightarrow> \<not> settling_wizard wz \<and> \<not> ended_wizard wz"
  "settling_wizard wz \<Longrightarrow> \<not> waiting_wizard wz \<and> \<not> ended_wizard wz"
  "ended_wizard wz \<Longrightarrow> \<not> waiting_wizard wz \<and> \<not> settling_wizard wz"
  by (auto simp: waiting_wizard_def settling_wizard_def ended_wizard_def)

subsection \<open>Events of the box\<close>

lemma listener_settled:
  "settled p \<noteq> Pending \<Longrightarrow> settled (listener opts ev p) = settled p"
  by (cases ev; cases "settled p")
    (simp_all add: onDidChangeValue_def onDidAccept_def onDidHide_def onDidTriggerButton_def Let_def)

lemma listener_frame:
  "listening (listener opts ev p) = listening p"
  "shown (input (listener opts ev p)) = shown (input p)"
  "disposed (input (listener opts ev p)) = disposed (input p)"
  by (cases ev;
      simp add: onDidChangeValue_def onDidAccept_def onDidHide_def onDidTriggerButton_def Let_def)+

lemma listener_pending:
  assumes "settled p = Pending"
  shows "settled (listener code_prompt ev p) = Pending
       \<or> (\<exists>c. ev = Accept \<and> c \<noteq> [] \<and> settled (listener code_prompt ev p) = Resolved c)
       \<or> (ev = Hide \<and> settled (listener code_prompt ev p) = Rejected Cancel)
       \<or> (ev = Press BackButton \<and> settled (listener code_prompt ev p) = Rejected Back)"
proof (cases ev)
  case (Type t)
  with assms show ?thesis by (simp add: onDidChangeValue_def)
next
  case Accept
  with assms show ?thesis
    by (cases "box_value (input p) = []") (simp_all add: onDidAccept_def code_prompt_def Let_def)
next
  case Hide
  with assms show ?thesis by (simp add: onDidHide_def)
next
  case (Press b)
  with assms show ?thesis by (cases "b = BackButton") (simp_all add: onDidTriggerButton_def)
qed

lemma ui_no_wizard: "wizard st = None \<Longrightarrow> ui ev st = st"
  by (simp add: ui_def)

lemma ui_fields [simp]:
  "phase (ui ev st) = phase st"
  "result (ui ev st) = result st"
  "token_disposed (ui ev st) = token_disposed st"
  "code_promise (ui ev st) = code_promise st"
  "token (ui ev st) = token st"
  "codeManager (ui ev st) = codeManager st"
  "cancelled (ui ev st) = cancelled st"
  "clock (ui ev st) = clock st"
  by (simp_all add: ui_def Let_def split: option.splits)

lemma ui_registered:
  assumes "wizard st = Some wz" "registered wz" "current (runner wz) = Some box"
  shows "ui ev st = st\<lparr>wizard := Some (wz\<lparr>runner := (runner wz)\<lparr>current :=
             Some (input (listener code_prompt ev \<lparr>input = box, settled = pasted wz, listening = True\<rparr>))\<rparr>,
           pasted := settled (listener code_prompt ev \<lparr>input = box, settled = pasted wz, listening = True\<rparr>),
           registered := True\<rparr>)\<rparr>"
  using assms by (simp add: ui_def deliver_def listener_frame Let_def)

lemma ui_waiting:
  assumes "wizard st = Some wz" "waiting_wizard wz"
  shows "\<exists>wz'. ui ev st = st\<lparr>wizard := Some wz'\<rparr> \<and>
           (waiting_wizard wz'
            \<or> settling_wizard wz' \<and>
                ((\<exists>c. ev = Accept \<and> c \<noteq> [] \<and> pasted wz' = Resolved c)
                 \<or> (ev = Hide \<and> pasted wz' = Rejected Cancel)
                 \<or> (ev = Press BackButton \<and> pasted wz' = Rejected Back)))"
proof -
  from assms(2) obtain box where w: "registered wz" "pasted wz = Pending"
    "run_promise wz = Pending" "steps (runner wz) = [0]"
    "current (runner wz) = Some box" "shown box" "\<not> disposed box"
    by (auto simp: waiting_wizard_def)
  let ?p = "\<lparr>input = box, settled = pasted wz, listening = True\<rparr>"
  let ?q = "listener code_prompt ev ?p"
  let ?wz = "wz\<lparr>runner := (runner wz)\<lparr>current := Some (input ?q)\<rparr>, pasted := settled ?q,
                registered := True\<rparr>"
  have u: "ui ev st = st\<lparr>wizard := Some ?wz\<rparr>"
    using ui_registered[OF assms(1) w(1) w(5)] .
  have box: "shown (input ?q)" "\<not> disposed (input ?q)"
    using w(6,7) by (simp_all add: listener_frame)
  have "settled ?p = Pending" using w(2) by simp
  from listener_pending[OF this, of ev]
  have "waiting_wizard ?wz
            \<or> settling_wizard ?wz \<and>
                ((\<exists>c. ev = Accept \<and> c \<noteq> [] \<and> pasted ?wz = Resolved c)
                 \<or> (ev = Hide \<and> pasted ?wz = Rejected Cancel)
                 \<or> (ev = Press BackButton \<and> pasted ?wz = Rejected Back))"
    using w(3,4) box by (auto simp: waiting_wizard_def settling_wizard_def)
  with u show ?thesis by blast
qed

lemma ui_settling:
  assumes "wizard st = Some wz" "settling_wizard wz"
  shows "\<exists>wz'. ui ev st = st\<lparr>wizard := Some wz'\<rparr> \<and> settling_wizard wz' \<and> pasted wz' = pasted wz"
proof -
  from assms(2) obtain box where w: "registered wz" "pasted wz \<noteq> Pending"
    "run_promise wz = Pending" "steps (runner wz) = [0]"
    "current (runner wz) = Some box" "shown box" "\<not> disposed box"
    by (auto simp: settling_wizard_def)
  let ?p = "\<lparr>input = box, settled = pasted wz, listening = True\<rparr>"
  let ?q = "listener code_prompt ev ?p"
  let ?wz = "wz\<lparr>runner := (runner wz)\<lparr>current := Some (input ?q)\<rparr>, pasted := settled ?q,
                registered := True\<rparr>"
  have u: "ui ev st = st\<lparr>wizard := Some ?wz\<rparr>"
    using ui_registered[OF assms(1) w(1) w(5)] .
  have box: "shown (input ?q)" "\<not> disposed (input ?q)"
    using w(6,7) by (simp_all add: listener_frame)
  have same: "settled ?q = pasted wz"
    using listener_settled[of ?p code_prompt ev] w(2) by simp
  have "settling_wizard ?wz \<and> pasted ?wz = pasted wz"
    using w(2,3,4) box same by (simp add: settling_wizard_def)
  with u show ?thesis by blast
qed

lemma ui_ended:
  assumes "wizard st = Some wz" "ended_wizard wz"
  shows "ui ev st = st"
proof -
  from assms(2) obtain box where w: "\<not> registered wz" "current (runner wz) = Some box"
    by (auto simp: ended_wizard_def)
  have r: "(runner wz)\<lparr>current := Some box\<rparr> = runner wz"
    using w(2) by (cases "runner wz") simp
  have "wz\<lparr>runner := runner wz, pasted := pasted wz, registered := False\<rparr> = wz"
    using w(1) by (cases wz) simp
  with assms(1) w r have "ui ev st = st\<lparr>wizard := Some wz\<rparr>"
    by (simp add: ui_def deliver_def)
  with assms(1) show ?thesis by (cases st) simp
qed

text \<open>What an event of the box does to the wizard, whatever its shape.\<close>

lemma ui_cases:
  assumes "\<forall>wz. wizard st = Some wz \<longrightarrow> waiting_wizard wz \<or> settling_wizard wz \<or> ended_wizard wz"
  shows "ui ev st = st
       \<or> (\<exists>wz wz'. wizard st = Some wz \<and> ui ev st = st\<lparr>wizard := Some wz'\<rparr>
             \<and> (waiting_wizard wz' \<or> settling_wizard wz')
             \<and> (pasted wz \<noteq> Pending \<longrightarrow> pasted wz' = pasted wz))"
proof (cases "wizard st")
  case None
  then show ?thesis by (simp add: ui_no_wizard)
next
  case (Some wz)
  with assms consider "waiting_wizard wz" | "settling_wizard wz" | "ended_wizard wz" by auto
  then show ?thesis
  proof cases
    case 1
    then have "pasted wz = Pending" by (simp add: waiting_wizard_def)
    with ui_waiting[OF Some 1, of ev] Some show ?thesis by auto
  next
    case 2
    with ui_settling[OF Some 2, of ev] Some show ?thesis by auto
  next
    case 3
    with Some show ?thesis by (simp add: ui_ended)
  qed
qed

subsection \<open>The wizard's continuation\<close>

lemma cancel_fields [simp]:
  "phase (cancelTokenSource_cancel st) = phase st"
  "result (cancelTokenSource_cancel st) = result st"
  "token_disposed (cancelTokenSource_cancel st) = token_disposed st"
  "wizard (cancelTokenSource_cancel st) = wizard st"
  "code_promise (cancelTokenSource_cancel st) = code_promise st"
  "token (cancelTokenSource_cancel st) = token st"
  "clock (cancelTokenSource_cancel st) = clock st"
  by (simp_all add: cancelTokenSource_cancel_def)

lemma step_body_fields [simp]:
  "phase (snd (step_body n pr st)) = phase st"
  "result (snd (step_body n pr st)) = result st"
  "token_disposed (snd (step_body n pr st)) = token_disposed st"
  "code_promise (snd (step_body n pr st)) = code_promise st"
  "token (snd (step_body n pr st)) = token st"
  "clock (snd (step_body n pr st)) = clock st"
  by (cases pr; simp)+

lemma resume_fields [simp]:
  "phase (wizard_resume n st) = phase st"
  "result (wizard_resume n st) = result st"
  "token_disposed (wizard_resume n st) = token_disposed st"
  "code_promise (wizard_resume n st) = code_promise st"
  "token (wizard_resume n st) = token st"
  "clock (wizard_resume n st) = clock st"
  by (simp_all add: wizard_resume_def Let_def case_prod_beta split: option.splits)

lemma resume_idle:
  assumes "\<forall>wz. wizard st = Some wz \<longrightarrow> waiting_wizard wz \<or> ended_wizard wz"
  shows "wizard_resume n st = st"
proof (cases "wizard st")
  case None
  then show ?thesis by (simp add: wizard_resume_def)
next
  case (Some wz)
  with assms have "\<not> (registered wz \<and> pasted wz \<noteq> Pending)"
    by (auto simp: waiting_wizard_def ended_wizard_def)
  then have "(if registered wz \<and> pasted wz \<noteq> Pending then x else st) = st" for x
    by auto
  with Some show ?thesis
    by (simp add: wizard_resume_def split: option.splits)
qed

lemma resume_unfold:
  assumes "wizard st = Some wz" "current (runner wz) = Some box" "registered wz"
    "pasted wz \<noteq> Pending"
  shows "wizard_resume n st =
           (snd (step_body n (pasted wz) st))
             \<lparr>wizard := Some (step_resume (fst (step_body n (pasted wz) st))
                                (wz\<lparr>registered := False\<rparr>))\<rparr>"
  using assms
  by (simp add: wizard_resume_def showInputBox_finally_def Let_def case_prod_beta)

lemma step_resume_returns:
  assumes "current (runner wz) = Some box" "\<not> registered wz" "pasted wz \<noteq> Pending"
  shows "ended_wizard (step_resume (Returns None) wz)
       \<and> pasted (step_resume (Returns None) wz) = pasted wz
       \<and> run_promise (step_resume (Returns None) wz) = Resolved ()"
  using assms
  by (simp add: step_resume_def step_finally_def dispose_def ended_wizard_def)

lemma step_resume_throws:
  assumes "current (runner wz) = Some box" "\<not> registered wz" "pasted wz \<noteq> Pending"
    "steps (runner wz) = [f]" "e \<noteq> Cancel"
  shows "ended_wizard (step_resume (Throws e) wz)
       \<and> pasted (step_resume (Throws e) wz) = pasted wz
       \<and> run_promise (step_resume (Throws e) wz) = Rejected e"
  using assms
  by (cases e) (simp_all add: step_resume_def step_finally_def dispose_def ended_wizard_def)

lemma resume_settling:
  assumes "wizard st = Some wz" "settling_wizard wz"
  shows "(\<exists>c wz'. pasted wz = Resolved c
            \<and> wizard_resume n st = st\<lparr>codeManager := resolveCode n c (codeManager st), wizard := Some wz'\<rparr>
            \<and> ended_wizard wz' \<and> pasted wz' = Resolved c \<and> run_promise wz' = Resolved ())
       \<or> (\<exists>wz'. pasted wz = Rejected Cancel
            \<and> wizard_resume n st = (cancelTokenSource_cancel st)\<lparr>wizard := Some wz'\<rparr>
            \<and> ended_wizard wz' \<and> pasted wz' = Rejected Cancel \<and> run_promise wz' = Resolved ())
       \<or> (\<exists>e wz'. pasted wz = Rejected e \<and> e \<noteq> Cancel
            \<and> wizard_resume n st = st\<lparr>wizard := Some wz'\<rparr>
            \<and> ended_wizard wz' \<and> pasted wz' = Rejected e \<and> run_promise wz' = Rejected e)"
proof -
  from assms(2) obtain box where w: "registered wz" "pasted wz \<noteq> Pending"
    "run_promise wz = Pending" "steps (runner wz) = [0]"
    "current (runner wz) = Some box"
    by (auto simp: settling_wizard_def)
  let ?wz = "wz\<lparr>registered := False\<rparr>"
  have wz1: "current (runner ?wz) = Some box" "\<not> registered ?wz" "pasted ?wz \<noteq> Pending"
    "steps (runner ?wz) = [0]" "pasted ?wz = pasted wz"
    using w by simp_all
  note u = resume_unfold[OF assms(1) w(5) w(1) w(2), of n]
  show ?thesis
  proof (cases "pasted wz")
    case Pending
    with w(2) show ?thesis by simp
  next
    case (Resolved c)
    from u Resolved have "wizard_resume n st =
        st\<lparr>codeManager := resolveCode n c (codeManager st),
           wizard := Some (step_resume (Returns None) ?wz)\<rparr>"
      by simp
    with step_resume_returns[OF wz1(1,2,3)] Resolved wz1(5) show ?thesis by auto
  next
    case (Rejected e)
    show ?thesis
    proof (cases "e = Cancel")
      case True
      with u Rejected have "wizard_resume n st =
          (cancelTokenSource_cancel st)\<lparr>wizard := Some (step_resume (Returns None) ?wz)\<rparr>"
        by simp
      with step_resume_returns[OF wz1(1,2,3)] Rejected True wz1(5) show ?thesis by auto
    next
      case False
      with u Rejected have "wizard_resume n st =
          st\<lparr>wizard := Some (step_resume (Throws e) ?wz)\<rparr>"
        by simp
      with step_resume_throws[OF wz1(1,2,3,4) False] Rejected False wz1(5) show ?thesis by auto
    qed
  qed
qed

text \<open>After the wizard's continuation the wizard is not in its second shape.\<close>

lemma resume_cases:
  assumes "\<forall>wz. wizard st = Some wz \<longrightarrow> waiting_wizard wz \<or> settling_wizard wz \<or> ended_wizard wz"
  shows "(wizard_resume n st = st
            \<and> (\<forall>wz. wizard st = Some wz \<longrightarrow> waiting_wizard wz \<or> ended_wizard wz))
       \<or> (\<exists>wz c wz'. wizard st = Some wz \<and> pasted wz = Resolved c
            \<and> wizard_resume n st = st\<lparr>codeManager := resolveCode n c (codeManager st), wizard := Some wz'\<rparr>
            \<and> ended_wizard wz' \<and> pasted wz' = Resolved c)
       \<or> (\<exists>wz wz'. wizard st = Some wz \<and> pasted wz = Rejected Cancel
            \<and> wizard_resume n st = (cancelTokenSource_cancel st)\<lparr>wizard := Some wz'\<rparr>
            \<and> ended_wizard wz' \<and> pasted wz' = Rejected Cancel)
       \<or> (\<exists>wz e wz'. wizard st = Some wz \<and> pasted wz = Rejected e
            \<and> wizard_resume n st = st\<lparr>wizard := Some wz'\<rparr>
            \<and> ended_wizard wz' \<and> pasted wz' = Rejected e)"
proof (cases "\<exists>wz. wizard st = Some wz \<and> settling_wizard wz")
  case False
  with assms have idle: "\<forall>wz. wizard st = Some wz \<longrightarrow> waiting_wizard wz \<or> ended_wizard wz"
    by auto
  with resume_idle[OF idle, of n] show ?thesis by simp
next
  case True
  then obtain wz where wz: "wizard st = Some wz" "settling_wizard wz" by blast
  from resume_settling[OF wz, of n] wz(1) show ?thesis by blast
qed

subsection \<open>The shape of the state\<close>

lemma shape_inv_trigger: "shape_inv (trigger fl options tok now cm)"
  by (auto simp: shape_inv_def trigger_def trigger_finally_def Let_def split: sum.splits)

lemma shape_inv_wizard:
  assumes "shape_inv st" "wizard st \<noteq> None"
    "waiting_wizard wz' \<or> settling_wizard wz' \<or> ended_wizard wz'"
  shows "shape_inv (st\<lparr>wizard := Some wz'\<rparr>)"
  using assms by (auto simp: shape_inv_def)

lemma shape_inv_cancel [simp]: "shape_inv (cancelTokenSource_cancel st) = shape_inv st"
  by (simp add: shape_inv_def)

lemma shape_inv_codeManager [simp]: "shape_inv (st\<lparr>codeManager := c\<rparr>) = shape_inv st"
  by (simp add: shape_inv_def)

lemma shape_inv_ui:
  assumes "shape_inv st"
  shows "shape_inv (ui ev st)"
proof -
  from assms have w: "\<forall>wz. wizard st = Some wz \<longrightarrow>
      waiting_wizard wz \<or> settling_wizard wz \<or> ended_wizard wz"
    by (simp add: shape_inv_def)
  from ui_cases[OF w, of ev] consider (same) "ui ev st = st"
    | (changed) wz wz' where "wizard st = Some wz" "ui ev st = st\<lparr>wizard := Some wz'\<rparr>"
        "waiting_wizard wz' \<or> settling_wizard wz'"
    by blast
  then show ?thesis
  proof cases
    case same
    with assms show ?thesis by simp
  next
    case changed
    with shape_inv_wizard[OF assms, of wz'] show ?thesis by auto
  qed
qed

lemma shape_inv_handle:
  assumes "shape_inv st"
  shows "shape_inv (handle fl options ev st)"
proof (cases ev)
  case (AsExternalUri r)
  with assms show ?thesis
    by (auto simp: shape_inv_def trigger_finally_def split: sum.splits)
next
  case (OpenExternal r)
  with assms show ?thesis
    by (auto simp: shape_inv_def trigger_finally_def promptForAuthorizationCode_def
        waiting_invoke_step split: sum.splits)
next
  case CancellationRequested
  with assms show ?thesis by simp
next
  case (Elapse ms)
  with assms show ?thesis by (simp add: shape_inv_def)
next
  case (Ui e)
  with assms show ?thesis by (simp add: shape_inv_ui)
qed

lemma shape_inv_events:
  "shape_inv st \<Longrightarrow> shape_inv (foldl (\<lambda>s ev. handle fl options ev s) st evs)"
  by (induction evs arbitrary: st) (simp_all add: shape_inv_handle)

lemma shape_inv_resume:
  assumes "shape_inv st"
  shows "shape_inv (wizard_resume n st)
       \<and> (\<forall>wz. wizard (wizard_resume n st) = Some wz \<longrightarrow> waiting_wizard wz \<or> ended_wizard wz)"
proof -
  from assms have w: "\<forall>wz. wizard st = Some wz \<longrightarrow>
      waiting_wizard wz \<or> settling_wizard wz \<or> ended_wizard wz"
    by (simp add: shape_inv_def)
  from resume_cases[OF w, of n] consider
      (idle) "wizard_resume n st = st"
        "\<forall>wz. wizard st = Some wz \<longrightarrow> waiting_wizard wz \<or> ended_wizard wz"
    | (code) wz c wz' where "wizard st = Some wz"
        "wizard_resume n st = st\<lparr>codeManager := resolveCode n c (codeManager st), wizard := Some wz'\<rparr>"
        "ended_wizard wz'"
    | (cancel) wz wz' where "wizard st = Some wz"
        "wizard_resume n st = (cancelTokenSource_cancel st)\<lparr>wizard := Some wz'\<rparr>"
        "ended_wizard wz'"
    | (thrown) wz wz' where "wizard st = Some wz" "wizard_resume n st = st\<lparr>wizard := Some wz'\<rparr>"
        "ended_wizard wz'"
    by blast
  then show ?thesis
  proof cases
    case idle
    with assms show ?thesis by simp
  next
    case code
    have "shape_inv (st\<lparr>codeManager := resolveCode n c (codeManager st)\<rparr>)"
      using assms by simp
    from shape_inv_wizard[OF this, of wz'] code show ?thesis by simp
  next
    case cancel
    have "shape_inv (cancelTokenSource_cancel st)"
      using assms by simp
    from shape_inv_wizard[OF this, of wz'] cancel show ?thesis by simp
  next
    case thrown
    from shape_inv_wizard[OF assms, of wz'] thrown show ?thesis by simp
  qed
qed

lemma await_code_fields [simp]:
  "wizard (await_code fl st) = wizard st"
  "codeManager (await_code fl st) = codeManager st"
  "code_promise (await_code fl st) = code_promise st"
  "token (await_code fl st) = token st"
  "cancelled (await_code fl st) = cancelled st"
  "clock (await_code fl st) = clock st"
  by (simp_all add: await_code_def trigger_finally_def split: option.splits promise.splits)

lemma shape_inv_await_code:
  assumes "shape_inv st"
  shows "shape_inv (await_code fl st)"
  using assms
  by (auto simp: shape_inv_def await_code_def trigger_finally_def
      split: option.splits promise.splits)

lemma shape_inv_turn:
  assumes "shape_inv st"
  shows "shape_inv (turn fl options evs st)
       \<and> (\<forall>wz. wizard (turn fl options evs st) = Some wz \<longrightarrow> waiting_wizard wz \<or> ended_wizard wz)"
  using shape_inv_resume[OF shape_inv_events[OF assms], of "nonce options" fl options evs]
  by (simp add: turn_def microtasks_def shape_inv_await_code)

subsection \<open>Where the code comes from\<close>

lemma code_inv_trigger: "code_inv fl (trigger fl options tok now cm)"
  by (auto simp: code_inv_def trigger_def trigger_finally_def Let_def
      dest: waitForCode_registers split: sum.splits)

lemma code_inv_cancel:
  "code_inv fl st \<Longrightarrow> code_inv fl (cancelTokenSource_cancel st)"
  by (auto simp: code_inv_def cancelTokenSource_cancel_def onCancellationRequested_def
      promise_at_reject_where_Resolved)

lemma code_inv_wizard:
  assumes "code_inv fl st"
    and "\<And>p c. code_promise st = Some p \<Longrightarrow> promise_at (codeManager st) p = Resolved c
           \<Longrightarrow> pasted wz' = Resolved c"
  shows "code_inv fl (st\<lparr>wizard := Some wz'\<rparr>)"
  using assms by (auto simp: code_inv_def)

lemma code_inv_ui:
  assumes "code_inv fl st" "shape_inv st"
  shows "code_inv fl (ui ev st)"
proof -
  from assms(2) have w: "\<forall>wz. wizard st = Some wz \<longrightarrow>
      waiting_wizard wz \<or> settling_wizard wz \<or> ended_wizard wz"
    by (simp add: shape_inv_def)
  from ui_cases[OF w, of ev] consider (same) "ui ev st = st"
    | (changed) wz wz' where "wizard st = Some wz" "ui ev st = st\<lparr>wizard := Some wz'\<rparr>"
        "pasted wz \<noteq> Pending \<longrightarrow> pasted wz' = pasted wz"
    by blast
  then show ?thesis
  proof cases
    case same
    with assms show ?thesis by simp
  next
    case a: changed
    have "pasted wz' = Resolved c"
      if "code_promise st = Some p" "promise_at (codeManager st) p = Resolved c" for p c
    proof -
      from assms(1) that a(1) have "pasted wz = Resolved c" by (auto simp: code_inv_def)
      with a(3) show ?thesis by simp
    qed
    with code_inv_wizard[OF assms(1), of wz'] a(2) show ?thesis by simp
  qed
qed

lemma code_inv_handle:
  assumes "code_inv fl st" "shape_inv st"
  shows "code_inv fl (handle fl options ev st)"
proof (cases ev)
  case (AsExternalUri r)
  with assms(1) show ?thesis
    by (auto simp: code_inv_def trigger_finally_def split: sum.splits)
next
  case (OpenExternal r)
  show ?thesis
  proof (cases "phase st = AwaitOpenExternal")
    case True
    with assms(2) have "wizard st = None" by (simp add: shape_inv_def)
    with assms(1) have fresh: "\<And>p c. code_promise st = Some p \<Longrightarrow>
        promise_at (codeManager st) p \<noteq> Resolved c"
      by (auto simp: code_inv_def)
    then have nores: "\<And>r. result st \<noteq> Resolved r"
      using assms(1) by (auto simp: code_inv_def)
    from True OpenExternal fresh nores show ?thesis
      by (auto simp: code_inv_def trigger_finally_def promptForAuthorizationCode_def
          split: sum.splits)
  next
    case False
    with OpenExternal assms(1) show ?thesis by simp
  qed
next
  case CancellationRequested
  with assms(1) show ?thesis by (simp add: code_inv_cancel)
next
  case (Elapse ms)
  with assms(1) show ?thesis
    by (auto simp: code_inv_def onTimeout_def promise_at_reject_where_Resolved)
next
  case (Ui e)
  with assms show ?thesis by (simp add: code_inv_ui)
qed

lemma code_inv_resolveCode:
  assumes "code_inv fl st" "wizard st = Some wz" "pasted wz = Resolved c" "pasted wz' = Resolved c"
  shows "code_inv fl (st\<lparr>codeManager := resolveCode n c (codeManager st), wizard := Some wz'\<rparr>)"
proof -
  have old: "c' = c" if "code_promise st = Some p" "promise_at (codeManager st) p = Resolved c'" for p c'
    using assms(1,2,3) that by (auto simp: code_inv_def)
  have new: "c' = c"
    if "code_promise st = Some p" "promise_at (resolveCode n c (codeManager st)) p = Resolved c'" for p c'
    using promise_at_resolveCode_Resolved[OF that(2)] old[OF that(1)] by auto
  have kept: "promise_at (resolveCode n c (codeManager st)) p = Resolved (code r)"
    if "result st = Resolved r" "code_promise st = Some p"
      "promise_at (codeManager st) p = Resolved (code r)" for r p
    using that(3) settled_resolveCode[of "codeManager st" p n c] by simp
  show ?thesis
    using assms(1,4) new kept by (auto simp: code_inv_def)
qed

lemma code_inv_resume:
  assumes "code_inv fl st" "shape_inv st"
  shows "code_inv fl (wizard_resume n st)"
proof -
  from assms(2) have w: "\<forall>wz. wizard st = Some wz \<longrightarrow>
      waiting_wizard wz \<or> settling_wizard wz \<or> ended_wizard wz"
    by (simp add: shape_inv_def)
  from resume_cases[OF w, of n] consider
      (idle) "wizard_resume n st = st"
    | (code) wz c wz' where "wizard st = Some wz" "pasted wz = Resolved c"
        "wizard_resume n st = st\<lparr>codeManager := resolveCode n c (codeManager st), wizard := Some wz'\<rparr>"
        "pasted wz' = Resolved c"
    | (cancel) wz wz' where "wizard st = Some wz" "pasted wz = Rejected Cancel"
        "wizard_resume n st = (cancelTokenSource_cancel st)\<lparr>wizard := Some wz'\<rparr>"
    | (thrown) wz e wz' where "wizard st = Some wz" "pasted wz = Rejected e"
        "wizard_resume n st = st\<lparr>wizard := Some wz'\<rparr>"
    by blast
  then show ?thesis
  proof cases
    case idle
    with assms show ?thesis by simp
  next
    case a: code
    from code_inv_resolveCode[OF assms(1) a(1,2,4), of n] a(3) show ?thesis by simp
  next
    case a: cancel
    have c: "code_inv fl (cancelTokenSource_cancel st)"
      using assms(1) by (rule code_inv_cancel)
    have "pasted wz' = Resolved c'"
      if "code_promise (cancelTokenSource_cancel st) = Some p"
        "promise_at (codeManager (cancelTokenSource_cancel st)) p = Resolved c'" for p c'
      using c that a(1,2) by (auto simp: code_inv_def)
    with code_inv_wizard[OF c, of wz'] a(3) show ?thesis by simp
  next
    case a: thrown
    have "pasted wz' = Resolved c'"
      if "code_promise st = Some p" "promise_at (codeManager st) p = Resolved c'" for p c'
      using assms(1) that a(1,2) by (auto simp: code_inv_def)
    with code_inv_wizard[OF assms(1), of wz'] a(3) show ?thesis by simp
  qed
qed

lemma code_inv_await_code:
  assumes "code_inv fl st"
  shows "code_inv fl (await_code fl st)"
  using assms
  by (auto simp: code_inv_def await_code_def trigger_finally_def
      split: option.splits promise.splits)

lemma invs_events:
  "shape_inv st \<Longrightarrow> code_inv fl st \<Longrightarrow>
     shape_inv (foldl (\<lambda>s ev. handle fl options ev s) st evs)
     \<and> code_inv fl (foldl (\<lambda>s ev. handle fl options ev s) st evs)"
  by (induction evs arbitrary: st) (simp_all add: shape_inv_handle code_inv_handle)

lemma invs_turn:
  assumes "shape_inv st" "code_inv fl st"
  shows "shape_inv (turn fl options evs st) \<and> code_inv fl (turn fl options evs st)"
proof -
  let ?s = "foldl (\<lambda>s ev. handle fl options ev s) st evs"
  from invs_events[OF assms, of options evs] have s: "shape_inv ?s" "code_inv fl ?s" by simp_all
  from code_inv_resume[OF s(2) s(1), of "nonce options"] shape_inv_turn[OF assms(1), of fl options evs]
  show ?thesis by (simp add: turn_def microtasks_def code_inv_await_code)
qed

lemma invs_after:
  "shape_inv st \<Longrightarrow> code_inv fl st \<Longrightarrow>
     shape_inv (after fl options turns st) \<and> code_inv fl (after fl options turns st)"
  unfolding after_def
  by (induction turns arbitrary: st) (simp_all add: invs_turn)

text \<open>
  Claim C1.  Whatever turns of events an invocation of \<^verbatim>\<open>trigger\<close> goes through, if its promise
  is resolved then the result's \<open>redirectUri\<close> is the fixed
  \<^verbatim>\<open>CONFIG.ColabApiDomain + "/vscode/redirect"\<close> (whatever \<^verbatim>\<open>asExternalUri\<close> answered),
  and its \<open>code\<close> is the value with which the promise that \<^verbatim>\<open>waitForCode\<close> returned
  for the request's nonce was resolved, which is the value the input box was accepted
  with and handed to \<^verbatim>\<open>resolveCode\<close>.
\<close>

theorem C1_result_is_code_and_fixed_redirect:
  assumes "result (after fl options turns (trigger fl options tok now cm)) = Resolved r"
  shows "redirectUri r = ColabApiDomain fl @ ''/vscode/redirect''
       \<and> (\<exists>p wz. code_promise (after fl options turns (trigger fl options tok now cm)) = Some p
             \<and> promise_at (codeManager (after fl options turns (trigger fl options tok now cm))) p
                 = Resolved (code r)
             \<and> wizard (after fl options turns (trigger fl options tok now cm)) = Some wz
             \<and> pasted wz = Resolved (code r))"
proof -
  let ?st = "after fl options turns (trigger fl options tok now cm)"
  have "code_inv fl ?st"
    using invs_after[OF shape_inv_trigger code_inv_trigger] by simp
  with assms show ?thesis
    by (fastforce simp: code_inv_def PROXIED_REDIRECT_URI_def)
qed

subsection \<open>The registry during an invocation\<close>

lemma registry_inv_trigger:
  assumes "consistent cm"
  shows "registry_inv options (trigger fl options tok now cm)"
proof (cases "waitForCode (nonce options) tok now cm")
  case (Inl e)
  with assms show ?thesis
    by (simp add: registry_inv_def trigger_def trigger_finally_def)
next
  case (Inr pc)
  obtain p cm' where pc: "pc = (p, cm')" by (cases pc)
  from Inr pc consistent_waitForCode[OF assms, of "nonce options" tok now p cm']
    waitForCode_registers[of "nonce options" tok now cm p cm']
  show ?thesis
    by (simp add: registry_inv_def trigger_def)
qed

lemma registry_inv_reject_where:
  assumes "registry_inv options st"
  shows "consistent (reject_where P e (codeManager st))
       \<and> (\<forall>p. code_promise st = Some p \<longrightarrow>
            (promise_at (reject_where P e (codeManager st)) p = Pending \<longrightarrow>
               promise_at (codeManager st) p = Pending
               \<and> (\<exists>r. map_of (pending (reject_where P e (codeManager st))) (nonce options) = Some r
                    \<and> promise_id r = p \<and> cancellation r = token st \<and> \<not> P r)))"
proof (intro conjI allI impI)
  show "consistent (reject_where P e (codeManager st))"
    using assms by (simp add: registry_inv_def consistent_reject_where)
next
  fix p
  assume cp: "code_promise st = Some p"
    and pend: "promise_at (reject_where P e (codeManager st)) p = Pending"
  show before: "promise_at (codeManager st) p = Pending"
    using pend settled_reject_where[of "codeManager st" p P e] by auto
  with assms cp obtain r where r: "map_of (pending (codeManager st)) (nonce options) = Some r"
    "promise_id r = p" "cancellation r = token st"
    by (auto simp: registry_inv_def)
  have c: "consistent (codeManager st)" using assms by (simp add: registry_inv_def)
  from reject_where_entry[OF c r(1), of P e] pend r(2)
  have "\<not> P r" by (auto split: if_splits)
  with reject_where_entry[OF c r(1), of P e] r
  show "\<exists>r. map_of (pending (reject_where P e (codeManager st))) (nonce options) = Some r
                    \<and> promise_id r = p \<and> cancellation r = token st \<and> \<not> P r"
    by auto
qed

lemma registry_inv_cancel:
  assumes "registry_inv options st" "shape_inv st"
  shows "registry_inv options (cancelTokenSource_cancel st)"
proof (cases "cancelled st")
  case True
  with assms show ?thesis by (simp add: cancelTokenSource_cancel_def)
next
  case False
  show ?thesis
  proof (cases "token_disposed st")
    case True
    with assms(2) have "phase st = Finished" by (simp add: shape_inv_def)
    with False True assms(1) show ?thesis
      by (simp add: cancelTokenSource_cancel_def registry_inv_def)
  next
    case nd: False
    from registry_inv_reject_where[OF assms(1), of "\<lambda>r. cancellation r = token st" Cancelled]
      False nd assms(1)
    show ?thesis
      by (auto simp: cancelTokenSource_cancel_def registry_inv_def onCancellationRequested_def)
  qed
qed

lemma registry_inv_elapse:
  assumes "registry_inv options st"
  shows "registry_inv options (st\<lparr>clock := t, codeManager := onTimeout t (codeManager st)\<rparr>)"
  using registry_inv_reject_where[OF assms, of "\<lambda>r. timeoutHandle r \<le> t" Timeout] assms
  by (auto simp: registry_inv_def onTimeout_def)

lemma registry_inv_resolveCode:
  assumes "registry_inv options st"
  shows "registry_inv options (st\<lparr>codeManager := resolveCode (nonce options) c (codeManager st)\<rparr>)"
proof -
  have c: "consistent (codeManager st)" using assms by (simp add: registry_inv_def)
  have "promise_at (resolveCode (nonce options) c (codeManager st)) p \<noteq> Pending"
    if "code_promise st = Some p" for p
  proof (cases "promise_at (codeManager st) p = Pending")
    case True
    with assms that obtain r where r: "map_of (pending (codeManager st)) (nonce options) = Some r"
      "promise_id r = p"
      by (auto simp: registry_inv_def)
    from resolveCode_entry[OF c r(1), of c] r(2) show ?thesis by simp
  next
    case False
    then show ?thesis by (simp add: settled_resolveCode)
  qed
  with assms c show ?thesis
    by (auto simp: registry_inv_def consistent_resolveCode)
qed

lemma registry_inv_wizard [simp]:
  "registry_inv options (st\<lparr>wizard := w\<rparr>) = registry_inv options st"
  by (simp add: registry_inv_def)

lemma registry_inv_ui [simp]:
  "registry_inv options (ui ev st) = registry_inv options st"
  by (simp add: registry_inv_def)

lemma registry_inv_handle:
  assumes "registry_inv options st" "shape_inv st"
  shows "registry_inv options (handle fl options ev st)"
proof (cases ev)
  case (AsExternalUri r)
  with assms(1) show ?thesis
    by (auto simp: registry_inv_def trigger_finally_def split: sum.splits)
next
  case (OpenExternal r)
  with assms(1) show ?thesis
    by (auto simp: registry_inv_def trigger_finally_def promptForAuthorizationCode_def
        split: sum.splits)
next
  case CancellationRequested
  with assms show ?thesis by (simp add: registry_inv_cancel)
next
  case (Elapse ms)
  with registry_inv_elapse[OF assms(1), of "clock st + ms"] show ?thesis by simp
next
  case (Ui e)
  with assms show ?thesis by simp
qed

lemma registry_inv_resume:
  assumes "registry_inv options st" "shape_inv st"
  shows "registry_inv options (wizard_resume (nonce options) st)"
proof -
  from assms(2) have w: "\<forall>wz. wizard st = Some wz \<longrightarrow>
      waiting_wizard wz \<or> settling_wizard wz \<or> ended_wizard wz"
    by (simp add: shape_inv_def)
  from resume_cases[OF w, of "nonce options"] consider
      (idle) "wizard_resume (nonce options) st = st"
    | (code) c wz' where
        "wizard_resume (nonce options) st =
           st\<lparr>codeManager := resolveCode (nonce options) c (codeManager st), wizard := Some wz'\<rparr>"
    | (cancel) wz' where
        "wizard_resume (nonce options) st = (cancelTokenSource_cancel st)\<lparr>wizard := Some wz'\<rparr>"
    | (thrown) wz' where "wizard_resume (nonce options) st = st\<lparr>wizard := Some wz'\<rparr>"
    by blast
  then show ?thesis
  proof cases
    case idle
    with assms show ?thesis by simp
  next
    case code
    with registry_inv_resolveCode[OF assms(1), of c] show ?thesis by simp
  next
    case cancel
    with registry_inv_cancel[OF assms] show ?thesis by simp
  next
    case thrown
    with assms(1) show ?thesis by simp
  qed
qed

lemma registry_inv_await_code:
  assumes "registry_inv options st"
  shows "registry_inv options (await_code fl st)"
  using assms
  by (auto simp: registry_inv_def await_code_def trigger_finally_def
      split: option.splits promise.splits)

lemma await_code_pending:
  assumes "registry_inv options st" "phase (await_code fl st) = AwaitCode"
  shows "\<exists>p. code_promise st = Some p \<and> promise_at (codeManager st) p = Pending
       \<and> await_code fl st = st"
  using assms
  by (auto simp: registry_inv_def await_code_def trigger_finally_def
      split: option.splits promise.splits if_splits)

lemma map_of_filter_Some:
  assumes "distinct (map fst xs)" "map_of (filter (\<lambda>(k, v). Q k v) xs) k = Some v"
  shows "map_of xs k = Some v"
  using assms(2) map_of_filter_values[OF assms(1), of Q k]
  by (auto split: option.splits if_splits)

lemma pending_reject_where:
  assumes "consistent cm" "map_of (pending (reject_where P e cm)) n = Some r"
  shows "map_of (pending cm) n = Some r"
proof -
  have d: "distinct (map fst (pending cm))" using assms(1) by (simp add: consistent_def)
  from assms(2) show ?thesis
    using map_of_filter_Some[OF d, of "\<lambda>k r. \<not> P r" n r] by (simp add: reject_where_def)
qed

lemma pending_resolveCode:
  assumes "consistent cm" "map_of (pending (resolveCode n' c cm)) n = Some r"
  shows "map_of (pending cm) n = Some r"
proof (cases "map_of (pending cm) n'")
  case None
  with assms(2) show ?thesis by (simp add: resolveCode_def)
next
  case (Some r')
  have d: "distinct (map fst (pending cm))" using assms(1) by (simp add: consistent_def)
  from assms(2) Some show ?thesis
    using map_of_filter_Some[OF d, of "\<lambda>k r. k \<noteq> n'" n r] by (simp add: resolveCode_def)
qed

lemma timer_inv_trigger: "timer_inv options now (trigger fl options tok now cm)"
  by (auto simp: timer_inv_def trigger_def trigger_finally_def Let_def
      dest: waitForCode_registers split: sum.splits)

lemma timer_inv_wizard [simp]:
  "timer_inv options now (st\<lparr>wizard := w\<rparr>) = timer_inv options now st"
  by (simp add: timer_inv_def)

lemma timer_inv_eq:
  "code_promise st' = code_promise st \<Longrightarrow> codeManager st' = codeManager st \<Longrightarrow>
     timer_inv options now st' = timer_inv options now st"
  by (simp add: timer_inv_def)

lemma timer_inv_reject_where:
  assumes "timer_inv options now st" "consistent (codeManager st)"
  shows "timer_inv options now (st\<lparr>codeManager := reject_where P e (codeManager st)\<rparr>)"
  using assms by (auto simp: timer_inv_def dest: pending_reject_where)

lemma timer_inv_resolveCode:
  assumes "timer_inv options now st" "consistent (codeManager st)"
  shows "timer_inv options now (st\<lparr>codeManager := resolveCode n c (codeManager st)\<rparr>)"
  using assms by (auto simp: timer_inv_def dest: pending_resolveCode)

lemma timer_inv_cancel:
  assumes "timer_inv options now st" "consistent (codeManager st)"
  shows "timer_inv options now (cancelTokenSource_cancel st)"
proof -
  have "timer_inv options now (st\<lparr>cancelled := True\<rparr>)"
    using assms(1) by (simp add: timer_inv_def)
  moreover have "timer_inv options now
      (st\<lparr>cancelled := True, codeManager := onCancellationRequested (token st) (codeManager st)\<rparr>)
     = timer_inv options now
      (st\<lparr>codeManager := reject_where (\<lambda>r. cancellation r = token st) Cancelled (codeManager st)\<rparr>)"
    by (rule timer_inv_eq) (simp_all add: onCancellationRequested_def)
  ultimately show ?thesis
    using assms(1) timer_inv_reject_where[OF assms, of "\<lambda>r. cancellation r = token st" Cancelled]
    by (simp add: cancelTokenSource_cancel_def)
qed

lemma timer_inv_ui [simp]:
  "timer_inv options now (ui ev st) = timer_inv options now st"
  by (rule timer_inv_eq) simp_all

lemma timer_inv_handle:
  assumes "timer_inv options now st" "registry_inv options st"
  shows "timer_inv options now (handle fl options ev st)"
proof (cases ev)
  case (AsExternalUri r)
  have "timer_inv options now (handle fl options (AsExternalUri r) st) = timer_inv options now st"
    by (rule timer_inv_eq) (simp_all add: trigger_finally_def split: sum.splits)
  with assms(1) AsExternalUri show ?thesis by simp
next
  case (OpenExternal r)
  have "timer_inv options now (handle fl options (OpenExternal r) st) = timer_inv options now st"
    by (rule timer_inv_eq)
      (simp_all add: trigger_finally_def promptForAuthorizationCode_def split: sum.splits)
  with assms(1) OpenExternal show ?thesis by simp
next
  case CancellationRequested
  have c: "consistent (codeManager st)" using assms(2) by (simp add: registry_inv_def)
  from CancellationRequested timer_inv_cancel[OF assms(1) c] show ?thesis by simp
next
  case (Elapse ms)
  have c: "consistent (codeManager st)" using assms(2) by (simp add: registry_inv_def)
  have "timer_inv options now (handle fl options (Elapse ms) st)
      = timer_inv options now
          (st\<lparr>codeManager := reject_where (\<lambda>r. timeoutHandle r \<le> clock st + ms) Timeout (codeManager st)\<rparr>)"
    by (rule timer_inv_eq) (simp_all add: onTimeout_def)
  with Elapse timer_inv_reject_where[OF assms(1) c, of "\<lambda>r. timeoutHandle r \<le> clock st + ms" Timeout]
  show ?thesis by simp
next
  case (Ui e)
  with assms show ?thesis by simp
qed

lemma timer_inv_resume:
  assumes "timer_inv options now st" "registry_inv options st" "shape_inv st"
  shows "timer_inv options now (wizard_resume n st)"
proof -
  have c: "consistent (codeManager st)" using assms(2) by (simp add: registry_inv_def)
  from assms(3) have w: "\<forall>wz. wizard st = Some wz \<longrightarrow>
      waiting_wizard wz \<or> settling_wizard wz \<or> ended_wizard wz"
    by (simp add: shape_inv_def)
  from resume_cases[OF w, of n] consider
      (idle) "wizard_resume n st = st"
    | (code) c' wz' where
        "wizard_resume n st = st\<lparr>codeManager := resolveCode n c' (codeManager st), wizard := Some wz'\<rparr>"
    | (cancel) wz' where "wizard_resume n st = (cancelTokenSource_cancel st)\<lparr>wizard := Some wz'\<rparr>"
    | (thrown) wz' where "wizard_resume n st = st\<lparr>wizard := Some wz'\<rparr>"
    by blast
  then show ?thesis
  proof cases
    case idle
    with assms show ?thesis by simp
  next
    case code
    with timer_inv_resolveCode[OF assms(1) c, of n c'] show ?thesis by simp
  next
    case cancel
    with timer_inv_cancel[OF assms(1) c] show ?thesis by simp
  next
    case thrown
    with assms(1) show ?thesis by simp
  qed
qed

lemma timer_inv_await_code [simp]:
  "timer_inv options now (await_code fl st) = timer_inv options now st"
  by (rule timer_inv_eq) simp_all

subsection \<open>Turns\<close>

lemma within_turn_trigger:
  "consistent cm \<Longrightarrow> within_turn fl options now (trigger fl options tok now cm)"
  by (simp add: within_turn_def shape_inv_trigger code_inv_trigger registry_inv_trigger
      timer_inv_trigger)

lemma within_turn_handle:
  "within_turn fl options now st \<Longrightarrow> within_turn fl options now (handle fl options ev st)"
  by (simp add: within_turn_def shape_inv_handle code_inv_handle registry_inv_handle
      timer_inv_handle)

lemma within_turn_events:
  "within_turn fl options now st \<Longrightarrow>
     within_turn fl options now (foldl (\<lambda>s ev. handle fl options ev s) st evs)"
  by (induction evs arbitrary: st) (simp_all add: within_turn_handle)

lemma between_turns_microtasks:
  assumes "within_turn fl options now st"
  shows "between_turns fl options now (microtasks fl options st)"
proof -
  let ?s = "wizard_resume (nonce options) st"
  from assms have a: "shape_inv st" "code_inv fl st" "registry_inv options st"
    "timer_inv options now st"
    by (simp_all add: within_turn_def)
  have s1: "shape_inv ?s"
    and q: "\<forall>wz. wizard ?s = Some wz \<longrightarrow> waiting_wizard wz \<or> ended_wizard wz"
    using shape_inv_resume[OF a(1), of "nonce options"] by blast+
  have s2: "code_inv fl ?s" using a(2,1) by (rule code_inv_resume)
  have s3: "registry_inv options ?s" using a(3,1) by (rule registry_inv_resume)
  have s4: "timer_inv options now ?s" using a(4,3,1) by (rule timer_inv_resume)
  have quiet: "\<not> settling_wizard wz" if "wizard (await_code fl ?s) = Some wz" for wz
  proof -
    from that have "wizard ?s = Some wz" by simp
    with q have "waiting_wizard wz \<or> ended_wizard wz" by blast
    then show ?thesis using wizard_shapes by blast
  qed
  have pend: "\<exists>p. code_promise (await_code fl ?s) = Some p
         \<and> promise_at (codeManager (await_code fl ?s)) p = Pending"
    if "phase (await_code fl ?s) = AwaitCode"
    using await_code_pending[OF s3 that] by auto
  have w: "within_turn fl options now (await_code fl ?s)"
    unfolding within_turn_def
    using shape_inv_await_code[OF s1, of fl] code_inv_await_code[OF s2]
      registry_inv_await_code[OF s3, of fl] s4
    by simp
  show ?thesis
    unfolding between_turns_def microtasks_def
    using w quiet pend by blast
qed

lemma between_turns_trigger:
  assumes "consistent cm"
  shows "between_turns fl options now (trigger fl options tok now cm)"
proof -
  have "wizard (trigger fl options tok now cm) = None"
    and "phase (trigger fl options tok now cm) \<noteq> AwaitCode"
    by (simp_all add: trigger_def trigger_finally_def Let_def split: sum.splits)
  with within_turn_trigger[OF assms, of fl options now tok] show ?thesis
    by (simp add: between_turns_def)
qed

lemma between_turns_turn:
  assumes "between_turns fl options now st"
  shows "between_turns fl options now (turn fl options evs st)"
  unfolding turn_def
  using assms by (intro between_turns_microtasks within_turn_events) (simp add: between_turns_def)

lemma between_turns_after:
  "between_turns fl options now st \<Longrightarrow> between_turns fl options now (after fl options turns st)"
  unfolding after_def
  by (induction turns arbitrary: st) (simp_all add: between_turns_turn)

lemma after_snoc:
  "after fl options (turns @ [evs]) st = turn fl options evs (after fl options turns st)"
  by (simp add: after_def)

lemmas flow_eval =
  after_def turn_def microtasks_def wizard_resume_def trigger_def trigger_finally_def
  await_code_def ui_def deliver_def
  showInputBox_finally_def onDidAccept_def onDidChangeValue_def onDidHide_def
  onDidTriggerButton_def step_resume_def step_finally_def step_push_def dispose_def
  show_def showInputBox_def showInputBox_create_def createInputBox_def code_prompt_def
  promptForAuthorizationCode_def invoke_step_def cancelTokenSource_cancel_def
  waitForCode_def resolveCode_def reject_where_def onCancellationRequested_def
  onTimeout_def promise_at_def new_CodeManager_def TIMEOUT_MS_def
  test_flow_def defaultTriggerOpts_def Let_def box_displayed_def box_disposed_def
  PROXIED_REDIRECT_URI_def

text \<open>
  The test \<^verbatim>\<open>"triggers and resolves the authentication flow"\<close>: the box is shown, then,
  in one turn, its value becomes \<^verbatim>\<open>42\<close> and it is accepted.
\<close>

theorem C1_end_to_end_witness:
  "result (after test_flow defaultTriggerOpts
       [[AsExternalUri (Inr ''vscode://google.colab?nonce=nonce&windowId=1'')],
        [OpenExternal (Inr True)], [Ui (Type ''42''), Ui Accept]]
       (trigger test_flow defaultTriggerOpts 0 0 new_CodeManager))
     = Resolved \<lparr>code = ''42'', redirectUri = ''https://colab.example/vscode/redirect''\<rparr>
   \<and> redirectUri \<lparr>code = ''42'', redirectUri = ''https://colab.example/vscode/redirect''\<rparr>
       = ColabApiDomain test_flow @ ''/vscode/redirect''"
proof -
  have r: "result (after test_flow defaultTriggerOpts
       [[AsExternalUri (Inr ''vscode://google.colab?nonce=nonce&windowId=1'')],
        [OpenExternal (Inr True)], [Ui (Type ''42''), Ui Accept]]
       (trigger test_flow defaultTriggerOpts 0 0 new_CodeManager))
     = Resolved \<lparr>code = ''42'', redirectUri = ''https://colab.example/vscode/redirect''\<rparr>"
    by (simp add: flow_eval)
  from C1_result_is_code_and_fixed_redirect [OF r] r show ?thesis by simp
qed

subsection \<open>Dismissal\<close>

lemma ui_Hide:
  assumes "wizard st = Some wz" "waiting_wizard wz"
  shows "\<exists>wz'. ui Hide st = st\<lparr>wizard := Some wz'\<rparr> \<and> settling_wizard wz'
           \<and> pasted wz' = Rejected Cancel"
proof -
  from ui_waiting[OF assms, of Hide] obtain wz' where
    u: "ui Hide st = st\<lparr>wizard := Some wz'\<rparr>"
    and d: "waiting_wizard wz' \<or> settling_wizard wz' \<and> pasted wz' = Rejected Cancel"
    by auto
  from assms(2) obtain box where w: "registered wz" "pasted wz = Pending"
    "current (runner wz) = Some box"
    by (auto simp: waiting_wizard_def)
  from ui_registered[OF assms(1) w(1) w(3), of Hide] w(2)
  have "wizard (ui Hide st) \<noteq> None \<and> (\<forall>w. wizard (ui Hide st) = Some w \<longrightarrow> pasted w = Rejected Cancel)"
    by (simp add: onDidHide_def)
  with u have "pasted wz' = Rejected Cancel" by simp
  with d have "settling_wizard wz'" by (auto simp: waiting_wizard_def)
  with u \<open>pasted wz' = Rejected Cancel\<close> show ?thesis by blast
qed

lemma ui_settling_events:
  assumes "wizard st = Some wz" "settling_wizard wz"
  shows "\<exists>wz'. foldl (\<lambda>s ev. handle fl options ev s) st (map Ui us) = st\<lparr>wizard := Some wz'\<rparr>
           \<and> settling_wizard wz' \<and> pasted wz' = pasted wz"
  using assms
proof (induction us arbitrary: st wz)
  case Nil
  then have "st = st\<lparr>wizard := Some wz\<rparr>" by (cases st) simp
  with Nil(2) have "st = st\<lparr>wizard := Some wz\<rparr> \<and> settling_wizard wz \<and> pasted wz = pasted wz"
    by simp
  then show ?case unfolding foldl.simps list.map by (rule exI)
next
  case (Cons u us)
  from ui_settling[OF Cons.prems, of u] obtain wz1 where
    u: "ui u st = st\<lparr>wizard := Some wz1\<rparr>" and s: "settling_wizard wz1"
    and p: "pasted wz1 = pasted wz"
    by blast
  have w1: "wizard (st\<lparr>wizard := Some wz1\<rparr>) = Some wz1" by simp
  from Cons.IH[OF w1 s] obtain wz' where
    "foldl (\<lambda>s ev. handle fl options ev s) (st\<lparr>wizard := Some wz1\<rparr>) (map Ui us)
       = st\<lparr>wizard := Some wz1\<rparr>\<lparr>wizard := Some wz'\<rparr>"
    "settling_wizard wz'" "pasted wz' = pasted wz1"
    by blast
  with u p show ?case by auto
qed

text \<open>
  Claim C2.  Take any state an invocation reaches, from a consistent registry, in which
  the input box is waiting for the user and \<^verbatim>\<open>trigger\<close> has not settled.  Hiding the
  box there (whatever else happens to the box in the same turn) rejects the promise of
  \<^verbatim>\<open>showInputBox\<close> with \<^verbatim>\<open>InputFlowAction.cancel\<close>; the step cancels the token source
  of the invocation, which was not cancelled before; the wizard's run is fulfilled; the
  registry, which listens to that one token, rejects the code promise with
  \<open>Cancelled\<close>; and so \<^verbatim>\<open>trigger\<close> rejects with \<open>Cancelled\<close>.
\<close>

theorem C2_dismissal_cancels_shared_token:
  assumes "consistent cm"
    and "wizard (after fl options turns (trigger fl options tok now cm)) = Some wz"
    and "registered wz"
    and "result (after fl options turns (trigger fl options tok now cm)) = Pending"
  shows "\<not> cancelled (after fl options turns (trigger fl options tok now cm))
       \<and> cancelled (after fl options (turns @ [Ui Hide # map Ui us]) (trigger fl options tok now cm))
       \<and> map_option pasted (wizard (after fl options (turns @ [Ui Hide # map Ui us]) (trigger fl options tok now cm)))
           = Some (Rejected Cancel)
       \<and> map_option run_promise (wizard (after fl options (turns @ [Ui Hide # map Ui us]) (trigger fl options tok now cm)))
           = Some (Resolved ())
       \<and> map_option (promise_at (codeManager (after fl options (turns @ [Ui Hide # map Ui us]) (trigger fl options tok now cm))))
           (code_promise (after fl options (turns @ [Ui Hide # map Ui us]) (trigger fl options tok now cm)))
           = Some (Rejected Cancelled)
       \<and> result (after fl options (turns @ [Ui Hide # map Ui us]) (trigger fl options tok now cm))
           = Rejected Cancelled"
proof -
  define st where "st = after fl options turns (trigger fl options tok now cm)"
  have b: "between_turns fl options now st"
    unfolding st_def using assms(1) by (simp add: between_turns_after between_turns_trigger)
  then have sh: "shape_inv st" and rg: "registry_inv options st"
    by (simp_all add: between_turns_def within_turn_def)
  have wz: "wizard st = Some wz" and res: "result st = Pending"
    using assms(2,4) by (simp_all add: st_def)
  from b wz have "\<not> settling_wizard wz" by (simp add: between_turns_def)
  with sh wz assms(3) have waiting: "waiting_wizard wz"
    by (auto simp: shape_inv_def ended_wizard_def)
  from sh wz res have ph: "phase st = AwaitCode"
    by (cases "phase st") (auto simp: shape_inv_def)
  with b obtain p where p: "code_promise st = Some p" "promise_at (codeManager st) p = Pending"
    by (auto simp: between_turns_def)
  with rg obtain r where r: "map_of (pending (codeManager st)) (nonce options) = Some r"
    "promise_id r = p" "cancellation r = token st"
    by (auto simp: registry_inv_def)
  from rg p ph have nc: "\<not> cancelled st" by (auto simp: registry_inv_def)
  from sh ph have nd: "\<not> token_disposed st" by (simp add: shape_inv_def)
  have c: "consistent (codeManager st)" using rg by (simp add: registry_inv_def)
  from ui_Hide[OF wz waiting] obtain wz1 where
    u1: "ui Hide st = st\<lparr>wizard := Some wz1\<rparr>" and s1: "settling_wizard wz1"
    and p1: "pasted wz1 = Rejected Cancel"
    by blast
  have w1: "wizard (st\<lparr>wizard := Some wz1\<rparr>) = Some wz1" by simp
  from ui_settling_events[OF w1 s1, of fl options us] obtain wz2 where
    u2: "foldl (\<lambda>s ev. handle fl options ev s) (st\<lparr>wizard := Some wz1\<rparr>) (map Ui us)
           = st\<lparr>wizard := Some wz2\<rparr>"
    and s2: "settling_wizard wz2" and p2: "pasted wz2 = Rejected Cancel"
    using p1 by auto
  have events: "foldl (\<lambda>s ev. handle fl options ev s) st (Ui Hide # map Ui us)
      = st\<lparr>wizard := Some wz2\<rparr>"
    using u1 u2 by simp
  have w2: "wizard (st\<lparr>wizard := Some wz2\<rparr>) = Some wz2" by simp
  from resume_settling[OF w2 s2, of "nonce options"] p2 obtain wz3 where
    u3: "wizard_resume (nonce options) (st\<lparr>wizard := Some wz2\<rparr>)
           = (cancelTokenSource_cancel (st\<lparr>wizard := Some wz2\<rparr>))\<lparr>wizard := Some wz3\<rparr>"
    and p3: "pasted wz3 = Rejected Cancel" "run_promise wz3 = Resolved ()"
    by auto
  have rej: "promise_at (onCancellationRequested (token st) (codeManager st)) p = Rejected Cancelled"
    using reject_where_entry[OF c r(1), of "\<lambda>r. cancellation r = token st" Cancelled] r(2,3)
    by (simp add: onCancellationRequested_def)
  have step: "after fl options (turns @ [Ui Hide # map Ui us]) (trigger fl options tok now cm)
      = await_code fl ((cancelTokenSource_cancel (st\<lparr>wizard := Some wz2\<rparr>))\<lparr>wizard := Some wz3\<rparr>)"
    using events u3 by (simp add: after_snoc st_def[symmetric] turn_def microtasks_def)
  show ?thesis
    unfolding step st_def[symmetric]
    using nc nd p3 rej p ph
    by (simp add: await_code_def cancelTokenSource_cancel_def trigger_finally_def)
qed

theorem C2_dismissal_witness:
  "consistent new_CodeManager
   \<and> map_option registered (wizard (after test_flow defaultTriggerOpts
       [[AsExternalUri (Inr ''vscode://google.colab?nonce=nonce&windowId=1'')],
        [OpenExternal (Inr True)]]
       (trigger test_flow defaultTriggerOpts 0 0 new_CodeManager))) = Some True
   \<and> result (after test_flow defaultTriggerOpts
       [[AsExternalUri (Inr ''vscode://google.colab?nonce=nonce&windowId=1'')],
        [OpenExternal (Inr True)]]
       (trigger test_flow defaultTriggerOpts 0 0 new_CodeManager)) = Pending
   \<and> result (after test_flow defaultTriggerOpts
       ([[AsExternalUri (Inr ''vscode://google.colab?nonce=nonce&windowId=1'')],
         [OpenExternal (Inr True)]] @ [Ui Hide # map Ui []])
       (trigger test_flow defaultTriggerOpts 0 0 new_CodeManager)) = Rejected Cancelled
   \<and> result (after test_flow defaultTriggerOpts
       ([[AsExternalUri (Inr ''vscode://google.colab?nonce=nonce&windowId=1'')],
         [OpenExternal (Inr True)]] @ [Ui Hide # map Ui [Type ''42'', Accept]])
       (trigger test_flow defaultTriggerOpts 0 0 new_CodeManager)) = Rejected Cancelled"
proof -
  let ?turns = "[[AsExternalUri (Inr ''vscode://google.colab?nonce=nonce&windowId=1'')],
        [OpenExternal (Inr True)]]"
  let ?st = "after test_flow defaultTriggerOpts ?turns
       (trigger test_flow defaultTriggerOpts 0 0 new_CodeManager)"
  obtain wz where wz: "wizard ?st = Some wz" and reg: "registered wz"
    by (simp add: flow_eval)
  have res: "result ?st = Pending"
    by (simp add: flow_eval)
  from C2_dismissal_cancels_shared_token [OF consistent_new wz reg res, of "[]"]
    C2_dismissal_cancels_shared_token [OF consistent_new wz reg res, of "[Type ''42'', Accept]"]
    wz reg res consistent_new
  show ?thesis by simp
qed

subsection \<open>Cleanup\<close>














section \<open>Properties of the session storage\<close>

lemma join_Cons: "join sep (x # ys) = x @ concat (map (\<lambda>y. sep @ y) ys)"
  by (induction ys arbitrary: x) simp_all

lemma quote_marks [simp]: "dquote \<noteq> backslash" "backslash \<noteq> dquote"
  by (simp_all add: dquote_def backslash_def)

lemma hexval_hexdigit: "k < 16 \<Longrightarrow> hexval (hexdigit k) = Some k"
  by (auto simp: hexval_def hexdigit_def Let_def)

lemma hexval_zero: "hexval (CHR ''0'') = Some 0"
  by (simp add: hexval_def)

lemma lex_escape_control:
  assumes "(of_char c :: nat) < 32"
  shows "lex_escape (CHR ''u'' # CHR ''0'' # CHR ''0'' # hexdigit (of_char c div 16)
           # hexdigit (of_char c mod 16) # rest) = Some (c, rest)"
proof -
  have d: "(of_char c :: nat) div 16 < 16" using assms by simp
  have m: "(of_char c :: nat) mod 16 < 16" by simp
  have "hex4 (CHR ''0'') (CHR ''0'') (hexdigit (of_char c div 16)) (hexdigit (of_char c mod 16))
      = Some (of_char c)"
    by (simp add: hex4_def hexval_zero hexval_hexdigit[OF d] hexval_hexdigit[OF m])
  then show ?thesis by (simp add: lex_escape_def)
qed

lemma lex_string_quote_char:
  "lex_string acc (quote_char c @ rest) = lex_string (c # acc) rest"
proof -
  consider (q) "c = dquote" | (b) "c = backslash"
    | (short) "c \<noteq> dquote" "c \<noteq> backslash"
        "c = CHR 0x08 \<or> c = CHR 0x0C \<or> c = CHR 0x0A \<or> c = CHR 0x0D \<or> c = CHR 0x09"
    | (ctl) "c \<noteq> dquote" "c \<noteq> backslash"
        "\<not> (c = CHR 0x08 \<or> c = CHR 0x0C \<or> c = CHR 0x0A \<or> c = CHR 0x0D \<or> c = CHR 0x09)"
        "(of_char c :: nat) < 32"
    | (plain) "c \<noteq> dquote" "c \<noteq> backslash" "\<not> (of_char c :: nat) < 32"
    by blast
  then show ?thesis
  proof cases
    case q
    then show ?thesis
      by (simp add: quote_char_def lex_escape_def unescape_def dquote_def backslash_def)
  next
    case b
    then show ?thesis
      by (simp add: quote_char_def lex_escape_def unescape_def dquote_def backslash_def)
  next
    case short
    then show ?thesis
      by (auto simp: quote_char_def lex_escape_def unescape_def dquote_def backslash_def)
  next
    case ctl
    then show ?thesis
      by (simp add: quote_char_def lex_escape_control)
  next
    case plain
    then have "quote_char c = [c]"
      by (auto simp: quote_char_def)
    with plain show ?thesis by simp
  qed
qed

lemma lex_string_quoted:
  "lex_string acc (concat (map quote_char s) @ dquote # rest) = Some (rev acc @ s, rest)"
proof (induction s arbitrary: acc)
  case Nil
  then show ?case by simp
next
  case (Cons c s)
  have "lex_string acc (concat (map quote_char (c # s)) @ dquote # rest)
      = lex_string acc (quote_char c @ (concat (map quote_char s) @ dquote # rest))"
    by simp
  also have "\<dots> = lex_string (c # acc) (concat (map quote_char s) @ dquote # rest)"
    by (rule lex_string_quote_char)
  also have "\<dots> = Some (rev (c # acc) @ s, rest)"
    by (rule Cons.IH)
  finally show ?case by simp
qed

lemma dquote_class [simp]:
  "\<not> whitespace dquote" "dquote \<noteq> CHR ''{''" "dquote \<noteq> CHR ''}''" "dquote \<noteq> CHR ''[''"
  "dquote \<noteq> CHR '']''" "dquote \<noteq> CHR '':''" "dquote \<noteq> CHR '',''"
  by (simp_all add: dquote_def whitespace_def)

lemma lex_quote: "lex (quote s @ rest) = map_option (Cons (TString s)) (lex rest)"
  by (simp add: quote_def lex_string_quoted)

lemma lex_punctuation:
  "lex (CHR ''{'' # rest) = map_option (Cons LBrace) (lex rest)"
  "lex (CHR ''}'' # rest) = map_option (Cons RBrace) (lex rest)"
  "lex (CHR ''['' # rest) = map_option (Cons LBrack) (lex rest)"
  "lex (CHR '']'' # rest) = map_option (Cons RBrack) (lex rest)"
  "lex (CHR '':'' # rest) = map_option (Cons Colon) (lex rest)"
  "lex (CHR '','' # rest) = map_option (Cons Comma) (lex rest)"
  by (simp_all add: whitespace_def)

lemma lex_strings:
  "lex (concat (map (\<lambda>y. CHR '','' # quote y) ys) @ rest)
     = map_option (\<lambda>ts. concat (map (\<lambda>y. [Comma, TString y]) ys) @ ts) (lex rest)"
proof (induction ys)
  case Nil
  then show ?case by (simp add: option.map_ident)
next
  case (Cons y ys)
  have "lex (concat (map (\<lambda>y. CHR '','' # quote y) (y # ys)) @ rest)
      = lex (CHR '','' # quote y @ concat (map (\<lambda>y. CHR '','' # quote y) ys) @ rest)"
    by simp
  also have "\<dots> = map_option (Cons Comma) (map_option (Cons (TString y))
      (lex (concat (map (\<lambda>y. CHR '','' # quote y) ys) @ rest)))"
    by (simp only: lex_punctuation lex_quote)
  also have "\<dots> = map_option (\<lambda>ts. concat (map (\<lambda>y. [Comma, TString y]) (y # ys)) @ ts) (lex rest)"
    by (simp add: Cons.IH option.map_comp comp_def)
  finally show ?case .
qed

lemma parse_strings:
  "parse_tokens (concat (map (\<lambda>y. [Comma, TString y]) ys) @ ts) (InArray xs # st, ExpectCommaOrEnd)
     = parse_tokens ts (InArray (xs @ map JString ys) # st, ExpectCommaOrEnd)"
  by (induction ys arbitrary: xs) simp_all

lemma stringify_strings:
  "stringify (JArray (map JString (y # ys)))
     = CHR ''['' # quote y @ concat (map (\<lambda>y. CHR '','' # quote y) ys) @ '']''"
  by (simp add: join_Cons comp_def)

lemma lex_string_array:
  "lex (stringify (JArray (map JString ys)) @ rest)
     = map_option (\<lambda>ts. LBrack # string_tokens ys @ RBrack # ts) (lex rest)"
proof (cases ys)
  case Nil
  have "lex (stringify (JArray (map JString ys)) @ rest) = lex (CHR ''['' # CHR '']'' # rest)"
    by (simp add: Nil)
  also have "\<dots> = map_option (Cons LBrack) (map_option (Cons RBrack) (lex rest))"
    by (simp only: lex_punctuation)
  finally show ?thesis
    by (simp add: Nil option.map_comp comp_def)
next
  case (Cons y ys')
  have "lex (stringify (JArray (map JString ys)) @ rest)
      = lex (CHR ''['' # quote y @ concat (map (\<lambda>y. CHR '','' # quote y) ys') @ CHR '']'' # rest)"
    by (simp only: Cons stringify_strings) simp
  also have "\<dots> = map_option (Cons LBrack) (map_option (Cons (TString y))
      (map_option (\<lambda>ts. concat (map (\<lambda>y. [Comma, TString y]) ys') @ ts)
        (map_option (Cons RBrack) (lex rest))))"
    by (simp only: lex_punctuation lex_quote lex_strings)
  finally show ?thesis
    by (simp add: Cons option.map_comp comp_def)
qed

lemma parse_string_array:
  "parse_tokens (string_tokens ys @ RBrack # ts) (InArray [] # InMember kvs k # st, ExpectValueOrEnd)
     = parse_tokens ts (InObject (kvs @ [(k, JArray (map JString ys))]) # st, ExpectCommaOrEnd)"
  by (cases ys) (simp_all add: parse_strings)

lemma stringify_session:
  "stringify (JArray [session_json s]) =
     CHR ''['' # CHR ''{'' #
       quote ''id'' @ CHR '':'' # quote (session_id s) @ CHR '','' #
       quote ''accessToken'' @ CHR '':'' # quote (accessToken s) @ CHR '','' #
       quote ''account'' @ CHR '':'' # CHR ''{'' #
         quote ''label'' @ CHR '':'' # quote (account_label (account s)) @ CHR '','' #
         quote ''id'' @ CHR '':'' # quote (account_id (account s)) @ CHR ''}'' # CHR '','' #
       quote ''scopes'' @ CHR '':'' #
         stringify (JArray (map JString (scopes s))) @ CHR ''}'' # CHR '']'' # []"
  by (simp add: session_json_def)

lemma lex_session:
  "lex (stringify (JArray [session_json s])) =
     Some ([LBrack, LBrace,
            TString ''id'', Colon, TString (session_id s), Comma,
            TString ''accessToken'', Colon, TString (accessToken s), Comma,
            TString ''account'', Colon, LBrace,
              TString ''label'', Colon, TString (account_label (account s)), Comma,
              TString ''id'', Colon, TString (account_id (account s)), RBrace, Comma,
            TString ''scopes'', Colon, LBrack]
           @ string_tokens (scopes s) @ [RBrack, RBrace, RBrack])"
  by (simp only: stringify_session lex_punctuation lex_quote lex_string_array lex.simps(1))
    (simp add: option.map_comp comp_def)

lemma JSON_parse_session:
  "JSON_parse (stringify (JArray [session_json s])) = Inr (JArray [session_json s])"
proof -
  have "parse_tokens
      ([LBrack, LBrace,
        TString ''id'', Colon, TString (session_id s), Comma,
        TString ''accessToken'', Colon, TString (accessToken s), Comma,
        TString ''account'', Colon, LBrace,
          TString ''label'', Colon, TString (account_label (account s)), Comma,
          TString ''id'', Colon, TString (account_id (account s)), RBrace, Comma,
        TString ''scopes'', Colon, LBrack]
       @ string_tokens (scopes s) @ [RBrack, RBrace, RBrack]) ([], ExpectValue)
      = Some ([], Complete (JArray [session_json s]))"
    by (simp add: parse_string_array session_json_def)
  then show ?thesis
    by (simp only: JSON_parse_def lex_session) simp
qed

lemma z_array_strings: "z_array z_string (Some (JArray (map JString ys))) = Inr ys"
  by (induction ys) simp_all

lemma schema_session: "AuthenticationSessionSchema (Some (session_json s)) = Inr s"
  by (simp add: session_json_def property_def z_array_strings del: z_array.simps)

lemma parse_stored_session:
  "parseAuthenticationSessions (stringify (JArray [session_json s])) = Inr [s]"
  by (simp add: parseAuthenticationSessions_def JSON_parse_session AuthenticationSessionsSchema_def
      schema_session del: stringify.simps)

lemma stored_session_nonempty: "stringify (JArray [session_json s]) \<noteq> []"
  by simp

text \<open>
  Claim C9.  For every session (its strings being lists of 8-bit characters) and every
  state of the secret storage, \<^verbatim>\<open>storeSession\<close> followed by \<^verbatim>\<open>getSession\<close> returns that
  session: \<^verbatim>\<open>JSON.parse\<close> reads back the one-element array \<^verbatim>\<open>JSON.stringify\<close> wrote,
  and the schema accepts it and rebuilds the session.  Reading leaves the stored value
  as it is.
\<close>

theorem C9_store_then_get:
  "fst (getSession (storeSession s ss)) = Inr (Some s)
   \<and> contents (snd (getSession (storeSession s ss))) = contents (storeSession s ss)"
  by (simp add: getSession_def storeSession_def secrets_get_def secrets_store_def
      parse_stored_session stored_session_nonempty del: stringify.simps)

lemma getSession_stored:
  assumes "contents ss SESSIONS_KEY = Some (stringify (JArray [session_json s]))"
  shows "getSession ss = (Inr (Some s), ss\<lparr>calls := calls ss @ [Get SESSIONS_KEY]\<rparr>)"
  using assms
  by (simp add: getSession_def secrets_get_def parse_stored_session stored_session_nonempty
      del: stringify.simps)

lemma getSession_none:
  assumes "contents ss SESSIONS_KEY = None"
  shows "getSession ss = (Inr None, ss\<lparr>calls := calls ss @ [Get SESSIONS_KEY]\<rparr>)"
  using assms by (simp add: getSession_def secrets_get_def)

lemma getSession_storage: "snd (getSession ss) = ss\<lparr>calls := calls ss @ [Get SESSIONS_KEY]\<rparr>"
  by (simp add: getSession_def secrets_get_def split: option.splits sum.splits list.splits)

text \<open>
  Claim C10 fails as stated.  When the stored value is not a one-element array of
  sessions (here the text \<^verbatim>\<open>[]\<close>), \<^verbatim>\<open>getSession\<close> throws the schema's error, and
  \<^verbatim>\<open>removeSession\<close> throws it too instead of returning \<^verbatim>\<open>undefined\<close>.
\<close>

theorem C10_removeSession_unparsable_counterexample:
  "fst (removeSession ''1'' (secrets_store SESSIONS_KEY ''[]'' SecretStorageFake)) = Inl ZodError"
  by (simp add: removeSession_def getSession_def secrets_get_def secrets_store_def
      SecretStorageFake_def parseAuthenticationSessions_def JSON_parse_def whitespace_def
      AuthenticationSessionsSchema_def)

text \<open>
  Claim C10 as amended.  \<^verbatim>\<open>removeSession\<close> is decided by what \<^verbatim>\<open>getSession\<close> answers,
  whatever the stored text is.  When \<^verbatim>\<open>getSession\<close> returns a session whose id is the
  given one, \<^verbatim>\<open>removeSession\<close> returns that session and deletes the entry: the storage
  sees one \<^verbatim>\<open>get\<close> and one \<^verbatim>\<open>delete\<close>.  When \<^verbatim>\<open>getSession\<close> returns a session
  of another id, or \<^verbatim>\<open>undefined\<close>, \<^verbatim>\<open>removeSession\<close> returns \<^verbatim>\<open>undefined\<close>; when
  \<^verbatim>\<open>getSession\<close> throws, \<^verbatim>\<open>removeSession\<close> throws the same error; in both cases the
  storage has only seen the \<^verbatim>\<open>get\<close> and holds what it held.  So the entry is deleted
  if and only if \<^verbatim>\<open>getSession\<close> returns a session with the given id, and that is also
  the only case in which a session is returned.  \<^verbatim>\<open>getSession\<close> returns \<^verbatim>\<open>undefined\<close>
  when nothing is stored and returns \<open>s\<close> after \<^verbatim>\<open>storeSession(s)\<close>.
\<close>

theorem C10_removeSession:
  "(fst (getSession ss) = Inr (Some s') \<and> session_id s' = sessionId \<longrightarrow>
      removeSession sessionId ss =
        (Inr (Some s'),
         ss\<lparr>contents := (contents ss)(SESSIONS_KEY := None),
            calls := calls ss @ [Get SESSIONS_KEY, Delete SESSIONS_KEY]\<rparr>))
   \<and> (fst (getSession ss) = Inr (Some s') \<and> session_id s' \<noteq> sessionId \<longrightarrow>
      removeSession sessionId ss = (Inr None, ss\<lparr>calls := calls ss @ [Get SESSIONS_KEY]\<rparr>))
   \<and> (fst (getSession ss) = Inr None \<longrightarrow>
      removeSession sessionId ss = (Inr None, ss\<lparr>calls := calls ss @ [Get SESSIONS_KEY]\<rparr>))
   \<and> (fst (getSession ss) = Inl e \<longrightarrow>
      removeSession sessionId ss = (Inl e, ss\<lparr>calls := calls ss @ [Get SESSIONS_KEY]\<rparr>))
   \<and> ((calls (snd (removeSession sessionId ss)) = calls ss @ [Get SESSIONS_KEY, Delete SESSIONS_KEY])
        = (\<exists>s'. fst (getSession ss) = Inr (Some s') \<and> session_id s' = sessionId))
   \<and> ((calls (snd (removeSession sessionId ss)) = calls ss @ [Get SESSIONS_KEY]
         \<and> contents (snd (removeSession sessionId ss)) = contents ss)
        = (\<not> (\<exists>s'. fst (getSession ss) = Inr (Some s') \<and> session_id s' = sessionId)))
   \<and> ((fst (removeSession sessionId ss) = Inr (Some s'))
        = (fst (getSession ss) = Inr (Some s') \<and> session_id s' = sessionId))
   \<and> (contents ss SESSIONS_KEY = None \<longrightarrow> fst (getSession ss) = Inr None)
   \<and> fst (getSession (storeSession s ss0)) = Inr (Some s)"
proof -
  obtain r ss1 where g: "getSession ss = (r, ss1)" by (cases "getSession ss")
  with getSession_storage[of ss] have ss1: "ss1 = ss\<lparr>calls := calls ss @ [Get SESSIONS_KEY]\<rparr>"
    by simp
  have stored: "fst (getSession (storeSession s ss0)) = Inr (Some s)"
    by (simp add: getSession_def storeSession_def secrets_get_def secrets_store_def
      parse_stored_session stored_session_nonempty del: stringify.simps)
  have none: "contents ss SESSIONS_KEY = None \<longrightarrow> fst (getSession ss) = Inr None"
    by (simp add: getSession_none)
  show ?thesis
    unfolding g ss1
    apply (intro conjI)
    using g ss1 stored none
    by (auto simp: removeSession_def secrets_delete_def split: sum.splits option.splits)
qed

text \<open>
  The three tests of \<^verbatim>\<open>removeSession\<close>, and a stored value that is not an array of
  one session.
\<close>

theorem C10_removeSession_witness:
  "fst (getSession (storeSession DEFAULT_SESSION SecretStorageFake)) = Inr (Some DEFAULT_SESSION)
   \<and> session_id DEFAULT_SESSION = ''1''
   \<and> removeSession ''1'' (storeSession DEFAULT_SESSION SecretStorageFake)
       = (Inr (Some DEFAULT_SESSION),
          (storeSession DEFAULT_SESSION SecretStorageFake)
            \<lparr>contents := (contents (storeSession DEFAULT_SESSION SecretStorageFake))(SESSIONS_KEY := None),
             calls := calls (storeSession DEFAULT_SESSION SecretStorageFake)
                        @ [Get SESSIONS_KEY, Delete SESSIONS_KEY]\<rparr>)
   \<and> session_id DEFAULT_SESSION \<noteq> ''does not exist''
   \<and> removeSession ''does not exist'' (storeSession DEFAULT_SESSION SecretStorageFake)
       = (Inr None, (storeSession DEFAULT_SESSION SecretStorageFake)
            \<lparr>calls := calls (storeSession DEFAULT_SESSION SecretStorageFake) @ [Get SESSIONS_KEY]\<rparr>)
   \<and> contents SecretStorageFake SESSIONS_KEY = None
   \<and> fst (getSession SecretStorageFake) = Inr None
   \<and> removeSession ''1'' SecretStorageFake
       = (Inr None, SecretStorageFake\<lparr>calls := calls SecretStorageFake @ [Get SESSIONS_KEY]\<rparr>)
   \<and> fst (getSession (secrets_store SESSIONS_KEY ''[]'' SecretStorageFake)) = Inl ZodError
   \<and> removeSession ''1'' (secrets_store SESSIONS_KEY ''[]'' SecretStorageFake)
       = (Inl ZodError, (secrets_store SESSIONS_KEY ''[]'' SecretStorageFake)
            \<lparr>calls := calls (secrets_store SESSIONS_KEY ''[]'' SecretStorageFake) @ [Get SESSIONS_KEY]\<rparr>)"
proof -
  let ?ss = "storeSession DEFAULT_SESSION SecretStorageFake"
  let ?bad = "secrets_store SESSIONS_KEY ''[]'' SecretStorageFake"
  have id1: "session_id DEFAULT_SESSION = ''1''"
    and id2: "session_id DEFAULT_SESSION \<noteq> ''does not exist''"
    by (simp_all add: DEFAULT_SESSION_def)
  have none: "contents SecretStorageFake SESSIONS_KEY = None"
    by (simp add: SecretStorageFake_def)
  have bad: "fst (getSession ?bad) = Inl ZodError"
    by (simp add: getSession_def secrets_get_def secrets_store_def
        SecretStorageFake_def parseAuthenticationSessions_def JSON_parse_def whitespace_def
        AuthenticationSessionsSchema_def)
  from C10_removeSession [of ?ss DEFAULT_SESSION "''1''" ZodError DEFAULT_SESSION SecretStorageFake]
    C10_removeSession [of ?ss DEFAULT_SESSION "''does not exist''" ZodError DEFAULT_SESSION SecretStorageFake]
    C10_removeSession [of SecretStorageFake DEFAULT_SESSION "''1''" ZodError DEFAULT_SESSION SecretStorageFake]
    C10_removeSession [of ?bad DEFAULT_SESSION "''1''" ZodError DEFAULT_SESSION SecretStorageFake]
    id1 id2 none bad
  show ?thesis by simp
qed

end
